theory Spec2Isabelle
  imports Complex_Main "HOL-Library.Word" "HOL-Library.Multiset"
begin

section \<open>The node and tree of \<open>sg_tree.h\<close>\<close>

text \<open>
  \<open>scalar\<close> and \<open>pointType\<close> come from \<open>utils.h\<close>, which is not part of the
  sources at hand. A scalar is read as a real number, and a point as an element of a real
  normed vector space: the only operations the header applies to points are subtraction
  and \<open>norm\<close>. \<open>unsigned\<close> is a 32-bit word; \<open>int\<close> levels are read as
  mathematical integers.
\<close>

type_synonym scalar = real
type_synonym unsigned = "32 word"

text \<open>
  \<open>struct Node\<close>. A node owns its children exclusively (the tree is acyclic), so the
  vector of child pointers is a list of child nodes. The per-node lock is left out.
\<close>

datatype 'p Node = Node
  (node_p: 'p)
  (children: "'p Node list")
  (level: int)
  (maxdistUB: scalar)
  (ID: unsigned)
  (UID: unsigned)
  (ext_prop: string)

text \<open>
  \<open>powdict[i]\<close> on a table of the given length. Reading outside the table is undefined
  behaviour in the source; the model returns \<open>None\<close> there.
\<close>

definition powdict_at :: "scalar list \<Rightarrow> int \<Rightarrow> scalar option" where
  "powdict_at powdict i =
     (if 0 \<le> i \<and> i < int (length powdict) then Some (powdict ! nat i) else None)"

text \<open>\<open>Node::covdist\<close>: \<open>return powdict[level + 1024];\<close>\<close>

definition covdist :: "'p Node \<Rightarrow> scalar list \<Rightarrow> scalar option" where
  "covdist n powdict = powdict_at powdict (level n + 1024)"

text \<open>\<open>Node::sepdist\<close>: \<open>return powdict[level + 1023];\<close>\<close>

definition sepdist :: "'p Node \<Rightarrow> scalar list \<Rightarrow> scalar option" where
  "sepdist n powdict = powdict_at powdict (level n + 1023)"

text \<open>\<open>Node::dist(const pointType&)\<close>: \<open>return (_p - pp).norm();\<close>\<close>

definition dist_point :: "('p::real_normed_vector) Node \<Rightarrow> 'p \<Rightarrow> scalar" where
  "dist_point n pp = norm (node_p n - pp)"

text \<open>\<open>Node::dist(const Node* )\<close>: \<open>return (_p - n->_p).norm();\<close>\<close>

definition dist_node :: "('p::real_normed_vector) Node \<Rightarrow> 'p Node \<Rightarrow> scalar" where
  "dist_node n m = norm (node_p n - node_p m)"

text \<open>
  The value that a 32-bit \<open>int\<close> holds after an operation whose mathematical result is
  \<open>x\<close>: \<open>x\<close> itself between \<open>-2^31\<close> and \<open>2^31 - 1\<close>, and the two's-complement
  wrap-around outside.
\<close>

definition int32 :: "int \<Rightarrow> int" where
  "int32 x = (x + 2147483648) mod 4294967296 - 2147483648"

text \<open>
  \<open>Node::setChild(pIns, UID = 0, new_id = -1)\<close>. The source mutates the node and returns a
  pointer to the new child; the model returns the updated node together with the child.
  \<open>temp->level = level - 1\<close> is a subtraction on \<open>int\<close>, which wraps around at the
  smallest \<open>int\<close>. \<open>new_id\<close> is a signed \<open>int\<close> stored into the \<open>unsigned\<close> field \<open>ID\<close>:
  the conversion is reduction modulo \<open>2^32\<close>, which is \<open>word_of_int\<close>.
\<close>

definition setChild ::
  "'p Node \<Rightarrow> 'p \<Rightarrow> unsigned \<Rightarrow> int \<Rightarrow> 'p Node \<times> 'p Node" where
  "setChild n pIns uid new_id =
     (let temp = Node pIns [] (int32 (level n - 1)) 0 (word_of_int new_id) uid []
      in (Node (node_p n) (children n @ [temp]) (level n) (maxdistUB n)
            (ID n) (UID n) (ext_prop n),
          temp))"

text \<open>The two shorter call forms, with the default arguments of the declaration.\<close>

definition setChild_uid :: "'p Node \<Rightarrow> 'p \<Rightarrow> unsigned \<Rightarrow> 'p Node \<times> 'p Node" where
  "setChild_uid n pIns uid = setChild n pIns uid (- 1)"

definition setChild_point :: "'p Node \<Rightarrow> 'p \<Rightarrow> 'p Node \<times> 'p Node" where
  "setChild_point n pIns = setChild n pIns 0 (- 1)"

text \<open>
  \<open>Node::erase(size_t pos)\<close>: \<open>children[pos] = children.back(); children.pop_back();\<close>
  With \<open>pos\<close> outside the vector (in particular on an empty vector) the source has
  undefined behaviour: \<open>None\<close>. The iterator overload does the same at the iterator's
  position.
\<close>

definition erase :: "'p Node \<Rightarrow> nat \<Rightarrow> 'p Node option" where
  "erase n pos =
     (if pos < length (children n)
      then Some (Node (node_p n) (butlast ((children n)[pos := last (children n)]))
                   (level n) (maxdistUB n) (ID n) (UID n) (ext_prop n))
      else None)"

text \<open>
  \<open>class SGTree\<close>: the data members. \<open>root\<close> is a pointer that the empty constructor
  leaves null; the atomics are plain values and the global lock is left out.
\<close>

record 'p SGTree =
  cores :: unsigned
  use_nesting :: bool
  base :: scalar
  tree_root :: "'p Node option"
  min_scale :: int
  max_scale :: int
  truncate_level :: int
  id_valid :: bool
  powdict :: "scalar list"
  tree_N :: unsigned
  tree_D :: unsigned

text \<open>\<open>SGTree::get_root\<close> and \<open>SGTree::get_tree_size\<close> (\<open>unsigned\<close> to \<open>int\<close>).\<close>

definition get_root :: "'p SGTree \<Rightarrow> 'p Node option" where
  "get_root t = tree_root t"

definition get_tree_size :: "'p SGTree \<Rightarrow> int" where
  "get_tree_size t = sint (tree_N t)"

text \<open>
  \<open>bool remove(const pointType& p) {return false;}\<close>: the result and the tree after the
  call.
\<close>

definition remove :: "'p SGTree \<Rightarrow> 'p \<Rightarrow> bool \<times> 'p SGTree" where
  "remove t p = (False, t)"

text \<open>
  Modelled from the spec: the body of \<open>SGTree::compute_pow_table\<close> is not in the
  header. The specification gives the table as \<open>powdict[i] = base^(i - BIAS)\<close> for
  \<open>i\<close> from \<open>0\<close> to \<open>2 * BIAS\<close>, with \<open>BIAS = 1024\<close>.
\<close>

definition compute_pow_table :: "scalar \<Rightarrow> scalar list" where
  "compute_pow_table b = map (\<lambda>i. b powi (int i - 1024)) [0..<2049]"

section \<open>Descendants and the cached bound\<close>

text \<open>
  The descendants of a node, in pre-order: each child followed by its own descendants.
  \<open>all_nodes\<close> is the node itself followed by its descendants.
\<close>

fun descendants :: "'p Node \<Rightarrow> 'p Node list" where
  "descendants (Node p cs l m i u e) = concat (map (\<lambda>c. c # descendants c) cs)"

definition all_nodes :: "'p Node \<Rightarrow> 'p Node list" where
  "all_nodes n = n # descendants n"

text \<open>
  The body of \<open>SGTree::calc_maxdist\<close> is not in the header, and the specification
  describes what it stores in two ways. Section 4.F gives a recurrence: a post-order
  traversal with \<open>n.maxdistUB = max over children c of (dist(n, c) + c.maxdistUB)\<close> and
  \<open>maxdistUB = 0\<close> at the leaves. Section 8 (invariant 3) gives the exact maximum:
  \<open>n.maxdistUB == max over descendants d of dist(n, d)\<close>. Both are modelled.
\<close>

text \<open>
  Modelled from the spec: the value of section 4.F for one node of the missing
  \<open>calc_maxdist\<close>, the maximum over the children \<open>c\<close> of \<open>dist(n, c) + c.maxdistUB\<close> for a
  node whose children are already done, and \<open>0\<close> at a leaf.
\<close>

definition max_child_bound :: "('p::real_normed_vector) Node \<Rightarrow> scalar" where
  "max_child_bound n =
     (if children n = [] then 0
      else Max (set (map (\<lambda>c. dist_node n c + maxdistUB c) (children n))))"

text \<open>
  Modelled from the spec: the value of section 8, invariant 3, for one node of the missing
  \<open>calc_maxdist\<close>, the largest distance from the node to one of its descendants (\<open>0\<close> when
  it has none).
\<close>

definition max_desc_dist :: "('p::real_normed_vector) Node \<Rightarrow> scalar" where
  "max_desc_dist n =
     (if descendants n = [] then 0 else Max (set (map (dist_node n) (descendants n))))"

text \<open>The two descriptions of the specification, and the value each gives for a node.\<close>

datatype maxdist_reading = Recurrence | Exact_maximum

definition node_bound :: "maxdist_reading \<Rightarrow> ('p::real_normed_vector) Node \<Rightarrow> scalar" where
  "node_bound rd n =
     (case rd of Recurrence \<Rightarrow> max_child_bound n | Exact_maximum \<Rightarrow> max_desc_dist n)"

text \<open>
  Modelled from the spec: the post-order traversal of the missing \<open>calc_maxdist\<close> on a
  subtree, the children first and then the node itself, under either description. Only
  \<open>maxdistUB\<close> is written.
\<close>

fun calc_maxdist_node ::
  "maxdist_reading \<Rightarrow> ('p::real_normed_vector) Node \<Rightarrow> 'p Node" where
  "calc_maxdist_node rd (Node p cs l m i u e) =
     (let cs' = map (calc_maxdist_node rd) cs
      in Node p cs' l (node_bound rd (Node p cs' l m i u e)) i u e)"


text \<open>
  A subtree with every \<open>maxdistUB\<close> set to \<open>0\<close>: two subtrees with the same image differ
  in their values of \<open>maxdistUB\<close> only.
\<close>

fun forget_bounds :: "'p Node \<Rightarrow> 'p Node" where
  "forget_bounds (Node p cs l m i u e) = Node p (map forget_bounds cs) l 0 i u e"

text \<open>
  Bound correctness, as the comment on the field \<open>maxdistUB\<close> words it (``upper bound of
  distance to any of descendants''): at one node, and at every node of a subtree.
\<close>

definition bound_ok_node :: "('p::real_normed_vector) Node \<Rightarrow> bool" where
  "bound_ok_node n = list_all (\<lambda>d. dist_node n d \<le> maxdistUB n) (descendants n)"

definition bound_ok :: "('p::real_normed_vector) Node \<Rightarrow> bool" where
  "bound_ok r = list_all bound_ok_node (all_nodes r)"

text \<open>
  Every node of the subtree carries the value of the recurrence (\<open>tight\<close>), or the exact
  maximum (\<open>exact_ok\<close>).
\<close>

definition tight :: "('p::real_normed_vector) Node \<Rightarrow> bool" where
  "tight r = list_all (\<lambda>m. maxdistUB m = max_child_bound m) (all_nodes r)"

definition exact_ok :: "('p::real_normed_vector) Node \<Rightarrow> bool" where
  "exact_ok r = list_all (\<lambda>n. maxdistUB n = max_desc_dist n) (all_nodes r)"

section \<open>Insertion\<close>

text \<open>
  The bodies of the two \<open>SGTree::insert\<close> functions are not in the header. This section
  follows section 4.D of the specification, run by one thread, over \<open>covdist\<close>, \<open>dist\<close>
  and \<open>setChild\<close> of the header.
\<close>

text \<open>
  Modelled from the spec: \<open>covdist(L)\<close> for a level \<open>L\<close> that is not given by a node, as
  section 4.D uses it for the children of \<open>current\<close>. The table is read as the accessor
  \<open>Node::covdist\<close> reads it for a node at level \<open>L\<close>.
\<close>

definition covdist_level :: "int \<Rightarrow> scalar list \<Rightarrow> scalar option" where
  "covdist_level l pd = powdict_at pd (l + 1024)"

text \<open>
  Modelled from the spec: the choice of the child to descend into, missing with the body
  of \<open>insert\<close>. ``A child \<open>c\<close> is a candidate iff \<open>dist(c, p) \<le> covdist(L - 1)\<close>. Among children examined
  in insertion order, descend into the first candidate'': the position of the first
  candidate, for the radius \<open>r = covdist(L - 1)\<close>.
\<close>

fun first_candidate :: "('p::real_normed_vector) Node list \<Rightarrow> 'p \<Rightarrow> scalar \<Rightarrow> nat option" where
  "first_candidate [] p r = None"
| "first_candidate (c # cs) p r =
     (if dist_point c p \<le> r then Some 0 else map_option Suc (first_candidate cs p r))"

text \<open>
  Modelled from the spec: the recursive helper \<open>SGTree::insert(current, p, UID, curr_dist)\<close>,
  whose body is missing; section 4.D calls it \<open>insert_at\<close>. The state \<open>st\<close> is the pair
  (\<open>min_scale\<close>, \<open>N\<close>) of the tree. A distance of zero on the descent aborts with false
  and changes nothing. With no candidate child, \<open>p\<close> is attached by \<open>setChild\<close> with the
  \<open>ID\<close> left at its default, \<open>min_scale\<close> becomes \<open>min(min_scale, L - 1)\<close> and \<open>N\<close> is
  incremented; step (d) of the specification attaches also below the truncation floor, so
  \<open>truncate_level\<close> is not read. The result is \<open>None\<close> when a read leaves the power table.
\<close>

function insert_at ::
  "scalar list \<Rightarrow> int \<times> unsigned \<Rightarrow> ('p::real_normed_vector) Node \<Rightarrow> 'p \<Rightarrow> unsigned \<Rightarrow> scalar
     \<Rightarrow> (bool \<times> 'p Node \<times> int \<times> unsigned) option" where
  "insert_at pd st current p uid curr_dist =
     (if curr_dist = 0 then Some (False, current, st)
      else case covdist_level (level current - 1) pd of
        None \<Rightarrow> None
      | Some r \<Rightarrow>
         (case first_candidate (children current) p r of
            None \<Rightarrow>
              Some (True, fst (setChild_uid current p uid),
                    min (fst st) (level current - 1), snd st + 1)
          | Some k \<Rightarrow>
             (case insert_at pd st (children current ! k) p uid
                     (dist_point (children current ! k) p) of
                None \<Rightarrow> None
              | Some (b, c', st') \<Rightarrow>
                  Some (b, Node (node_p current) ((children current)[k := c'])
                             (level current) (maxdistUB current) (ID current)
                             (UID current) (ext_prop current), st'))))"
  by pat_completeness auto
termination
proof (relation "measure (\<lambda>(pd, st, current, p, uid, curr_dist). size current)")
  show "wf (measure (\<lambda>(pd, st, current, p, uid, curr_dist). size current))" by simp
next
  fix pd :: "scalar list" and st :: "int \<times> unsigned" and current :: "('p::real_normed_vector) Node"
    and p :: 'p and uid :: unsigned and curr_dist r :: scalar and k :: nat
  assume fc: "first_candidate (children current) p r = Some k"
  have "j < length cs" if "first_candidate cs p r = Some j" for cs :: "'p Node list" and j
    using that by (induction cs arbitrary: j) (auto split: if_splits)
  with fc have "children current ! k \<in> set (children current)" by simp
  then have "size (children current ! k) \<le> size_list size (children current)"
    by (rule size_list_estimation') simp
  then have "size (children current ! k) < size current" by (cases current) simp
  then show "((pd, st, children current ! k, p, uid, dist_point (children current ! k) p),
              (pd, st, current, p, uid, curr_dist))
             \<in> measure (\<lambda>(pd, st, current, p, uid, curr_dist). size current)"
    by simp
qed

text \<open>
  Modelled from the spec: the root promotion of the missing body of \<open>SGTree::insert\<close>.
  ``While \<open>d0 > covdist(root.level)\<close> \<dots> allocate a new root at level
  \<open>root.level + 1\<close> whose point is the old root's point, and adopt the old root as its
  only child. \<dots> Update \<open>max_scale\<close>.'' The specification does not say what the new
  root's other fields are: the model gives it \<open>maxdistUB = 0\<close>, as for every fresh node,
  and the old root's \<open>ID\<close>, \<open>UID\<close> and \<open>ext_prop\<close>; \<open>max_scale\<close> is raised to the new
  level. The loop ends when \<open>d0\<close> is within the covering distance, or with \<open>None\<close> when
  the level leaves the power table.
\<close>

function promote :: "('p::real_normed_vector) SGTree \<Rightarrow> scalar \<Rightarrow> 'p SGTree option" where
  "promote t d0 =
     (case tree_root t of
        None \<Rightarrow> None
      | Some rt \<Rightarrow>
         (case covdist rt (powdict t) of
            None \<Rightarrow> None
          | Some r \<Rightarrow>
             if d0 > r
             then promote (t\<lparr>tree_root := Some (Node (node_p rt) [rt] (level rt + 1) 0
                                               (ID rt) (UID rt) (ext_prop rt)),
                             max_scale := max (max_scale t) (level rt + 1)\<rparr>) d0
             else Some t))"
  by pat_completeness auto
termination
proof (relation "measure (\<lambda>(t, d0). case tree_root t of None \<Rightarrow> 0
          | Some rt \<Rightarrow> nat (int (length (powdict t)) - (level rt + 1024)))")
  show "wf (measure (\<lambda>(t, d0). case tree_root t of None \<Rightarrow> 0
          | Some rt \<Rightarrow> nat (int (length (powdict t)) - (level rt + 1024))))" by simp
next
  fix t :: "('p::real_normed_vector) SGTree" and d0 r :: scalar and rt :: "'p Node"
  assume "tree_root t = Some rt" and "covdist rt (powdict t) = Some r"
  then show "((t\<lparr>tree_root := Some (Node (node_p rt) [rt] (level rt + 1) 0
                                               (ID rt) (UID rt) (ext_prop rt)),
                             max_scale := max (max_scale t) (level rt + 1)\<rparr>, d0), (t, d0))
       \<in> measure (\<lambda>(t, d0). case tree_root t of None \<Rightarrow> 0
          | Some rt \<Rightarrow> nat (int (length (powdict t)) - (level rt + 1024)))"
    by (auto simp add: covdist_def powdict_at_def split: if_splits)
qed

text \<open>
  Modelled from the spec: the public \<open>SGTree::insert(p, UID)\<close>, whose body is missing: the
  result and the tree after the call. An empty tree gets \<open>p\<close> as its root at level \<open>0\<close>
  (with \<open>maxdistUB = 0\<close> and the \<open>ID\<close> that \<open>setChild\<close> gives by default), with
  \<open>min_scale = max_scale = 0\<close> and \<open>N = 1\<close>, and the result is true. Otherwise
  \<open>d0 = dist(root, p)\<close>, the root is promoted, and \<open>insert_at\<close> runs from the root.
\<close>

definition insert_tree ::
  "('p::real_normed_vector) SGTree \<Rightarrow> 'p \<Rightarrow> unsigned \<Rightarrow> (bool \<times> 'p SGTree) option" where
  "insert_tree t p uid =
     (case tree_root t of
        None \<Rightarrow>
          Some (True, t\<lparr>tree_root := Some (Node p [] 0 0 (- 1) uid []),
                        min_scale := 0, max_scale := 0, tree_N := 1\<rparr>)
      | Some rt \<Rightarrow>
         (let d0 = dist_point rt p in
          case promote t d0 of
            None \<Rightarrow> None
          | Some t1 \<Rightarrow>
             (case tree_root t1 of
                None \<Rightarrow> None
              | Some rt1 \<Rightarrow>
                 (case insert_at (powdict t1) (min_scale t1, tree_N t1) rt1 p uid d0 of
                    None \<Rightarrow> None
                  | Some (b, rt2, ms, n) \<Rightarrow>
                      Some (b, t1\<lparr>tree_root := Some rt2, min_scale := ms, tree_N := n\<rparr>)))))"

text \<open>
  The nodes that the descent of \<open>insert_at\<close> from \<open>current\<close> visits, in order: it stops at
  a node at distance zero, at a node with no candidate child, and where a read leaves the
  power table. \<open>insert_descent\<close> is the descent of a whole insertion (after the root
  promotion), and \<open>zero_encountered\<close> says that some node on it is at distance exactly
  zero from \<open>p\<close>.
\<close>

function descent_path ::
  "scalar list \<Rightarrow> ('p::real_normed_vector) Node \<Rightarrow> 'p \<Rightarrow> 'p Node list" where
  "descent_path pd current p =
     current #
     (if dist_point current p = 0 then []
      else case covdist_level (level current - 1) pd of
        None \<Rightarrow> []
      | Some r \<Rightarrow>
         (case first_candidate (children current) p r of
            None \<Rightarrow> []
          | Some k \<Rightarrow> descent_path pd (children current ! k) p))"
  by pat_completeness auto
termination
proof (relation "measure (\<lambda>(pd, current, p). size current)")
  show "wf (measure (\<lambda>(pd, current, p). size current))" by simp
next
  fix pd :: "scalar list" and current :: "('p::real_normed_vector) Node"
    and p :: 'p and r :: scalar and k :: nat
  assume fc: "first_candidate (children current) p r = Some k"
  have "j < length cs" if "first_candidate cs p r = Some j" for cs :: "'p Node list" and j
    using that by (induction cs arbitrary: j) (auto split: if_splits)
  with fc have "children current ! k \<in> set (children current)" by simp
  then have "size (children current ! k) \<le> size_list size (children current)"
    by (rule size_list_estimation') simp
  then have "size (children current ! k) < size current" by (cases current) simp
  then show "((pd, children current ! k, p), (pd, current, p))
             \<in> measure (\<lambda>(pd, current, p). size current)"
    by simp
qed

definition insert_descent :: "('p::real_normed_vector) SGTree \<Rightarrow> 'p \<Rightarrow> 'p Node list" where
  "insert_descent t p =
     (case tree_root t of
        None \<Rightarrow> []
      | Some rt \<Rightarrow>
         (case promote t (dist_point rt p) of
            None \<Rightarrow> []
          | Some t1 \<Rightarrow>
             (case tree_root t1 of
                None \<Rightarrow> []
              | Some rt1 \<Rightarrow> descent_path (powdict t1) rt1 p)))"

definition zero_encountered :: "('p::real_normed_vector) SGTree \<Rightarrow> 'p \<Rightarrow> bool" where
  "zero_encountered t p = list_ex (\<lambda>m. dist_point m p = 0) (insert_descent t p)"

text \<open>
  Every level of the tree is one at which \<open>insert_at\<close> and the root promotion read inside
  the power table of \<open>2049\<close> entries.
\<close>

definition levels_in_table :: "'p SGTree \<Rightarrow> bool" where
  "levels_in_table t =
     (case tree_root t of
        None \<Rightarrow> True
      | Some rt \<Rightarrow> list_all (\<lambda>n. - 1023 \<le> level n \<and> level n \<le> 1024) (all_nodes rt))"

declare insert_at.simps [simp del] promote.simps [simp del] descent_path.simps [simp del]

section \<open>k nearest neighbours\<close>

text \<open>
  The body of \<open>SGTree::kNearestNeighbours\<close> is not in the header. This section follows the
  branch-and-bound frame of section 4.E of the specification.
\<close>

text \<open>
  Modelled from the spec: the lower bound of the missing body of \<open>kNearestNeighbours\<close>.
  The frontier holds pairs (node, lower bound) with
  \<open>lower_bound = max(0, dist(node, p) - node.maxdistUB)\<close>.
\<close>

definition lower_bound :: "('p::real_normed_vector) Node \<Rightarrow> 'p \<Rightarrow> scalar" where
  "lower_bound n p = max 0 (dist_point n p - maxdistUB n)"

text \<open>
  Modelled from the spec: the priority structure of the missing body of
  \<open>kNearestNeighbours\<close>. ``Pop the node with the smallest lower bound'': the first entry
  of the frontier with the smallest lower bound, and the frontier without it.
\<close>

fun pop_min :: "('a \<times> scalar) list \<Rightarrow> (('a \<times> scalar) \<times> ('a \<times> scalar) list) option" where
  "pop_min [] = None"
| "pop_min (x # xs) =
     (case pop_min xs of
        None \<Rightarrow> Some (x, [])
      | Some (y, ys) \<Rightarrow> if snd x \<le> snd y then Some (x, xs) else Some (y, x # ys))"

text \<open>
  Modelled from the spec: the result set of the missing body of \<open>kNearestNeighbours\<close>.
  ``Maintain the current top-\<open>k\<close> as a max-heap of size \<open>\<le> k\<close>'': the heap is kept as the list
  of its entries (node, distance) in ascending order of distance, its largest entry last,
  which is also the order of the result. A new entry goes behind the entries at the same
  distance (found earlier).
\<close>

fun insert_sorted :: "('a \<times> scalar) \<Rightarrow> ('a \<times> scalar) list \<Rightarrow> ('a \<times> scalar) list" where
  "insert_sorted x [] = [x]"
| "insert_sorted x (y # ys) = (if snd x < snd y then x # y # ys else y # insert_sorted x ys)"

text \<open>
  Modelled from the spec: ``consider updating the result set'' in the missing body of
  \<open>kNearestNeighbours\<close>. The entry is added while the heap has fewer than \<open>k\<close> entries;
  otherwise it replaces the largest entry when its distance is smaller.
\<close>

definition update_result ::
  "nat \<Rightarrow> ('a \<times> scalar) list \<Rightarrow> ('a \<times> scalar) \<Rightarrow> ('a \<times> scalar) list" where
  "update_result k res x =
     (if length res < k then insert_sorted x res
      else if res \<noteq> [] \<and> snd x < snd (last res) then insert_sorted x (butlast res)
      else res)"

text \<open>
  Modelled from the spec: the admissibility threshold of the missing body of
  \<open>kNearestNeighbours\<close>. ``Threshold = heap's largest distance once the heap is full, else
  \<open>+\<infinity>\<close>'': a lower bound is admissible when it does not exceed the threshold. With
  \<open>k = 0\<close> the heap is full and empty, and nothing is admissible.
\<close>

definition admissible :: "nat \<Rightarrow> ('a \<times> scalar) list \<Rightarrow> scalar \<Rightarrow> bool" where
  "admissible k res lb \<longleftrightarrow> length res < k \<or> (res \<noteq> [] \<and> lb \<le> snd (last res))"

text \<open>
  Modelled from the spec: the expansion loop of the missing body of
  \<open>kNearestNeighbours\<close>: pop; terminate when the popped lower bound exceeds the threshold;
  otherwise update the result with the popped node and push all its children, in order,
  with their lower bounds.
\<close>

function knn_loop ::
  "('p::real_normed_vector) \<Rightarrow> nat \<Rightarrow> ('p Node \<times> scalar) list \<Rightarrow> ('p Node \<times> scalar) list
     \<Rightarrow> ('p Node \<times> scalar) list" where
  "knn_loop p k frontier res =
     (case pop_min frontier of
        None \<Rightarrow> res
      | Some ((n, lb), rest) \<Rightarrow>
          if \<not> admissible k res lb then res
          else knn_loop p k (rest @ map (\<lambda>c. (c, lower_bound c p)) (children n))
                 (update_result k res (n, dist_point n p)))"
  by pat_completeness auto
termination
proof (relation "measure (\<lambda>(p, k, frontier, res). sum_list (map (\<lambda>e. size (fst e)) frontier))")
  show "wf (measure (\<lambda>(p, k, frontier, res). sum_list (map (\<lambda>e. size (fst e)) frontier)))"
    by simp
next
  fix p :: "'p::real_normed_vector" and k :: nat and frontier res :: "('p Node \<times> scalar) list"
    and x2 :: "('p Node \<times> scalar) \<times> ('p Node \<times> scalar) list"
    and x :: "'p Node \<times> scalar" and rest :: "('p Node \<times> scalar) list"
    and n :: "'p Node" and lb :: scalar
  assume "pop_min frontier = Some x2" and "(x, rest) = x2" and x: "(n, lb) = x"
  then have pm: "pop_min frontier = Some (x, rest)" by simp
  have none: "xs = []" if "pop_min xs = None" for xs :: "('p Node \<times> scalar) list"
    using that by (cases xs) (auto split: option.splits if_splits)
  have "sum_list (map (\<lambda>e. size (fst e)) xs) = size (fst y) + sum_list (map (\<lambda>e. size (fst e)) ys)"
    if "pop_min xs = Some (y, ys)" for xs ys :: "('p Node \<times> scalar) list" and y
    using that by (induction xs arbitrary: y ys) (auto split: option.splits if_splits dest: none)
  from this [OF pm] x
  have a: "sum_list (map (\<lambda>e. size (fst e)) frontier)
             = size n + sum_list (map (\<lambda>e. size (fst e)) rest)"
    by auto
  have b: "sum_list (map size (children n)) < size n"
  proof (cases n)
    case (Node q cs l m i u e)
    have "sum_list (map size cs) \<le> size_list size cs"
      by (induction cs) auto
    then show ?thesis using Node by simp
  qed
  have "map (\<lambda>e. size (fst e)) (map (\<lambda>c. (c, lower_bound c p)) (children n))
          = map size (children n)"
    by simp
  then have c: "sum_list (map (\<lambda>e. size (fst e)) (map (\<lambda>c. (c, lower_bound c p)) (children n)))
          < size n"
    using b by (simp only:)
  from a c show "((p, k, rest @ map (\<lambda>c. (c, lower_bound c p)) (children n),
           update_result k res (n, dist_point n p)), (p, k, frontier, res))
         \<in> measure (\<lambda>(p, k, frontier, res). sum_list (map (\<lambda>e. size (fst e)) frontier))"
    by (simp del: map_map)
qed

text \<open>
  Modelled from the spec: \<open>SGTree::kNearestNeighbours(p, k)\<close>, whose body is missing: empty
  on the empty tree, otherwise the loop from the root with an empty result. The
  \<open>unsigned\<close> count \<open>k\<close> is read as a natural number.
\<close>

definition kNearestNeighbours ::
  "('p::real_normed_vector) SGTree \<Rightarrow> 'p \<Rightarrow> nat \<Rightarrow> ('p Node \<times> scalar) list" where
  "kNearestNeighbours t p k =
     (case tree_root t of
        None \<Rightarrow> []
      | Some rt \<Rightarrow> knn_loop p k [(rt, lower_bound rt p)] [])"

text \<open>
  At every node of the subtree, \<open>maxdistUB\<close> is not negative and bounds the distance to
  every descendant; \<open>tree_bounds_valid\<close> says so for the whole tree. \<open>frontier_ok\<close> is
  the invariant of the loop on such a tree.
\<close>

definition bounds_valid :: "('p::real_normed_vector) Node \<Rightarrow> bool" where
  "bounds_valid r \<longleftrightarrow> bound_ok r \<and> list_all (\<lambda>n. 0 \<le> maxdistUB n) (all_nodes r)"

definition tree_bounds_valid :: "('p::real_normed_vector) SGTree \<Rightarrow> bool" where
  "tree_bounds_valid t = (case tree_root t of None \<Rightarrow> True | Some rt \<Rightarrow> bounds_valid rt)"

definition frontier_ok :: "('p::real_normed_vector) \<Rightarrow> ('p Node \<times> scalar) list \<Rightarrow> bool" where
  "frontier_ok p F \<longleftrightarrow>
     (\<forall>e \<in> set F. snd e = lower_bound (fst e) p
        \<and> (\<forall>m \<in> set (all_nodes (fst e)). \<forall>d \<in> set (all_nodes m).
              lower_bound m p \<le> dist_point d p))"

declare knn_loop.simps [simp del]

section \<open>The example tree\<close>

text \<open>
  The empty tree with base \<open>2\<close> and its power table, for points of the real line; the tree
  that inserting the points \<open>0\<close>, \<open>4\<close>, \<open>3\<close> with the UIDs \<open>0\<close>, \<open>1\<close>, \<open>2\<close> builds from it
  (the root \<open>0\<close> at level \<open>2\<close>, below it \<open>0\<close> and \<open>4\<close> at level \<open>1\<close>, with \<open>0\<close> at level \<open>0\<close>
  below the former and \<open>3\<close> at level \<open>0\<close> below the latter, every \<open>maxdistUB\<close> at \<open>0\<close>); and
  that tree with the values of \<open>maxdistUB\<close> that the recurrence of \<open>calc_maxdist\<close> gives
  (\<open>1\<close> at the node \<open>4\<close>, \<open>5\<close> at the root), and with the exact maxima (\<open>1\<close> and \<open>4\<close>).
\<close>

abbreviation example_empty :: "real SGTree" where
  "example_empty \<equiv>
     \<lparr>cores = 1, use_nesting = False, base = 2, tree_root = None, min_scale = 0,
      max_scale = 0, truncate_level = - 1, id_valid = False, powdict = compute_pow_table 2,
      tree_N = 0, tree_D = 1\<rparr>"

abbreviation example_root :: "real Node" where
  "example_root \<equiv>
     Node 0 [Node 0 [Node 0 [] 0 0 4294967295 0 []] 1 0 4294967295 0 [],
             Node 4 [Node 3 [] 0 0 4294967295 2 []] 1 0 4294967295 1 []]
       2 0 4294967295 0 []"

abbreviation example_tree :: "real SGTree" where
  "example_tree \<equiv>
     \<lparr>cores = 1, use_nesting = False, base = 2, tree_root = Some example_root, min_scale = 0,
      max_scale = 2, truncate_level = - 1, id_valid = False, powdict = compute_pow_table 2,
      tree_N = 3, tree_D = 1\<rparr>"

abbreviation example_root_calc :: "real Node" where
  "example_root_calc \<equiv>
     Node 0 [Node 0 [Node 0 [] 0 0 4294967295 0 []] 1 0 4294967295 0 [],
             Node 4 [Node 3 [] 0 0 4294967295 2 []] 1 1 4294967295 1 []]
       2 5 4294967295 0 []"


abbreviation example_tree_calc :: "real SGTree" where
  "example_tree_calc \<equiv>
     \<lparr>cores = 1, use_nesting = False, base = 2, tree_root = Some example_root_calc,
      min_scale = 0, max_scale = 2, truncate_level = - 1, id_valid = False,
      powdict = compute_pow_table 2, tree_N = 3, tree_D = 1\<rparr>"

section \<open>Facts about the power table\<close>

lemma powdict_at_pow_table:
  "powdict_at (compute_pow_table b) i =
     (if 0 \<le> i \<and> i \<le> 2048 then Some (b powi (i - 1024)) else None)"
proof (cases "0 \<le> i \<and> i \<le> 2048")
  case True
  then have "nat i < 2049" by linarith
  then have "map (\<lambda>k. b powi (int k - 1024)) [0..<2049] ! nat i = b powi (int (nat i) - 1024)"
    by (simp del: upt_Suc)
  with True show ?thesis
    by (simp add: powdict_at_def compute_pow_table_def del: upt_Suc)
next
  case False
  then show ?thesis
    by (auto simp add: powdict_at_def compute_pow_table_def simp del: upt_Suc)
qed

section \<open>The power table accessors\<close>

text \<open>
  C1, as the code has it. \<open>covdist\<close> reads \<open>powdict[level + 1024]\<close>, so on the table
  \<open>powdict[i] = base^(i - 1024)\<close> a node at level \<open>L\<close> between \<open>-1024\<close> and \<open>1024\<close>
  gets \<open>base^L\<close> (not \<open>base^(L+1)\<close>); outside that range the read leaves the table.
\<close>

theorem covdist_pow_table:
  "covdist n (compute_pow_table b) =
     (if - 1024 \<le> level n \<and> level n \<le> 1024 then Some (b powi level n) else None)"
  by (simp add: covdist_def powdict_at_pow_table)

theorem covdist_pow_table_witness:
  "covdist (Node (0::real) [] 3 0 0 0 []) (compute_pow_table 2) = Some 8"
  using covdist_pow_table [of "Node (0::real) [] 3 0 0 0 []" 2] by simp

text \<open>
  The claim as written fails: at level \<open>0\<close> with base \<open>2\<close> the accessor returns
  \<open>1 = 2^0\<close>, which is neither \<open>base^(L+1) = 2\<close> nor the entry
  \<open>powdict[L + 1024 + 1]\<close>.
\<close>

theorem covdist_counterexample:
  "covdist (Node (0::real) [] 0 0 0 0 []) (compute_pow_table 2) = Some 1
   \<and> covdist (Node (0::real) [] 0 0 0 0 []) (compute_pow_table 2) \<noteq> Some (2 powi (0 + 1))
   \<and> covdist (Node (0::real) [] 0 0 0 0 []) (compute_pow_table 2)
       \<noteq> powdict_at (compute_pow_table 2) (0 + 1024 + 1)"
  by (simp add: covdist_def powdict_at_pow_table)

text \<open>
  C2, as the code has it. \<open>sepdist\<close> reads \<open>powdict[level + 1023]\<close>, so on the table
  \<open>powdict[i] = base^(i - 1024)\<close> a node at level \<open>L\<close> between \<open>-1023\<close> and \<open>1025\<close>
  gets \<open>base^(L-1)\<close> (not \<open>base^L\<close>); outside that range the read leaves the table.
\<close>

theorem sepdist_pow_table:
  "sepdist n (compute_pow_table b) =
     (if - 1023 \<le> level n \<and> level n \<le> 1025 then Some (b powi (level n - 1)) else None)"
  by (simp add: sepdist_def powdict_at_pow_table)

theorem sepdist_pow_table_witness:
  "sepdist (Node (0::real) [] 3 0 0 0 []) (compute_pow_table 2) = Some 4"
  using sepdist_pow_table [of "Node (0::real) [] 3 0 0 0 []" 2] by simp

text \<open>
  The claim as written fails: at level \<open>0\<close> with base \<open>2\<close> the accessor returns
  \<open>1/2 = 2^(-1)\<close>, which is neither \<open>base^L = 1\<close> nor the entry \<open>powdict[L + 1024]\<close>.
\<close>

theorem sepdist_counterexample:
  "sepdist (Node (0::real) [] 0 0 0 0 []) (compute_pow_table 2) = Some (1 / 2)
   \<and> sepdist (Node (0::real) [] 0 0 0 0 []) (compute_pow_table 2) \<noteq> Some (2 powi 0)
   \<and> sepdist (Node (0::real) [] 0 0 0 0 []) (compute_pow_table 2)
       \<noteq> powdict_at (compute_pow_table 2) (0 + 1024)"
  by (simp add: sepdist_def powdict_at_pow_table)

section \<open>Node modifiers\<close>

text \<open>
  C6. For every tree state and every point, \<open>remove\<close> returns false and the tree after
  the call is the tree before it: every data member, and so the root and all nodes, the
  count \<open>N\<close> and both scales, is unchanged.
\<close>

theorem remove_noop:
  "fst (remove t p) = False \<and> snd (remove t p) = t
   \<and> tree_root (snd (remove t p)) = tree_root t
   \<and> tree_N (snd (remove t p)) = tree_N t
   \<and> min_scale (snd (remove t p)) = min_scale t
   \<and> max_scale (snd (remove t p)) = max_scale t"
  by (simp add: remove_def)

lemma int32_in_range:
  "- 2147483648 \<le> x \<Longrightarrow> x \<le> 2147483647 \<Longrightarrow> int32 x = x"
  by (simp add: int32_def)

text \<open>
  C7, as the code has it. For a node \<open>n\<close>, a point and a UID, \<open>setChild\<close> makes a node
  with that point, \<open>maxdistUB = 0\<close>, the given UID and no children, appends it at the end
  of the children of \<open>n\<close>, leaves every other field of \<open>n\<close> and all earlier children as
  they were, and returns the new node (the last child of \<open>n\<close> after the call). The level
  of the new node is \<open>level n - 1\<close> computed on \<open>int\<close>: it is \<open>level n - 1\<close> for every
  level of an \<open>int\<close> above the smallest one, \<open>-2^31\<close>.
\<close>

theorem setChild_appends:
  "node_p (snd (setChild n pIns uid new_id)) = pIns
   \<and> level (snd (setChild n pIns uid new_id)) = int32 (level n - 1)
   \<and> (- 2147483648 < level n \<and> level n \<le> 2147483647
        \<longrightarrow> level (snd (setChild n pIns uid new_id)) = level n - 1)
   \<and> maxdistUB (snd (setChild n pIns uid new_id)) = 0
   \<and> UID (snd (setChild n pIns uid new_id)) = uid
   \<and> children (snd (setChild n pIns uid new_id)) = []
   \<and> children (fst (setChild n pIns uid new_id))
       = children n @ [snd (setChild n pIns uid new_id)]
   \<and> last (children (fst (setChild n pIns uid new_id))) = snd (setChild n pIns uid new_id)
   \<and> take (length (children n)) (children (fst (setChild n pIns uid new_id))) = children n
   \<and> node_p (fst (setChild n pIns uid new_id)) = node_p n
   \<and> level (fst (setChild n pIns uid new_id)) = level n
   \<and> maxdistUB (fst (setChild n pIns uid new_id)) = maxdistUB n
   \<and> ID (fst (setChild n pIns uid new_id)) = ID n
   \<and> UID (fst (setChild n pIns uid new_id)) = UID n
   \<and> ext_prop (fst (setChild n pIns uid new_id)) = ext_prop n"
  by (simp add: setChild_def Let_def int32_in_range)

text \<open>A node at level \<open>3\<close> gets a child at level \<open>2\<close>.\<close>

theorem setChild_appends_witness:
  "- 2147483648 < level (Node (0::real) [] 3 0 0 0 [])
   \<and> level (Node (0::real) [] 3 0 0 0 []) \<le> 2147483647
   \<and> level (snd (setChild (Node (0::real) [] 3 0 0 0 []) 1 1 (- 1))) = 2"
  using setChild_appends [of "Node (0::real) [] 3 0 0 0 []" 1 1 "- 1"] by simp

text \<open>
  The claim for every level fails at the smallest \<open>int\<close>: the child of a node at level
  \<open>-2^31\<close> is at level \<open>2^31 - 1\<close>, above its parent, and not at \<open>-2^31 - 1\<close>.
\<close>

theorem setChild_level_counterexample:
  "level (snd (setChild (Node (0::real) [] (- 2147483648) 0 0 0 []) 1 1 (- 1))) = 2147483647
   \<and> level (snd (setChild (Node (0::real) [] (- 2147483648) 0 0 0 []) 1 1 (- 1)))
       \<noteq> level (Node (0::real) [] (- 2147483648) 0 0 0 []) - 1"
  by (simp add: setChild_def Let_def int32_def)

text \<open>
  C10. A call of \<open>setChild\<close> that gives no \<open>new_id\<close> stores the default \<open>-1\<close> into the
  unsigned field: the new node's \<open>ID\<close> is \<open>4294967295 = 2^32 - 1\<close>, whatever the node,
  the point and the UID.
\<close>

theorem setChild_default_ID:
  "ID (snd (setChild_uid n pIns uid)) = 4294967295
   \<and> unat (ID (snd (setChild_uid n pIns uid))) = 2 ^ 32 - 1
   \<and> ID (snd (setChild_point n pIns)) = 4294967295
   \<and> unat (ID (snd (setChild_point n pIns))) = 2 ^ 32 - 1"
  by (simp add: setChild_uid_def setChild_point_def setChild_def Let_def
      unsigned_minus_1_eq_mask mask_eq_exp_minus_1)

text \<open>
  C8. On a node with a child at position \<open>pos\<close> (so the vector is not empty),
  \<open>erase pos\<close> is a swap-remove: the last child is written at \<open>pos\<close> and the vector
  loses its last slot. The vector is one shorter, the children left are those before
  without the one at \<open>pos\<close> (as a multiset: none lost, none twice, also when \<open>pos\<close> is
  the last position), every other position keeps its child, and the other fields of the
  node are untouched. The order of the children left is not always the order before: at a
  position before the last one, the last child now stands where the erased child was, in
  front of the children that were before it.
\<close>

theorem erase_swap_remove:
  assumes "pos < length (children n)"
  shows "\<exists>n'. erase n pos = Some n'
     \<and> children n' = butlast ((children n)[pos := last (children n)])
     \<and> length (children n') = length (children n) - 1
     \<and> mset (children n') + {#children n ! pos#} = mset (children n)
     \<and> (\<forall>i < length (children n'). i \<noteq> pos \<longrightarrow> children n' ! i = children n ! i)
     \<and> (pos < length (children n') \<longrightarrow> children n' ! pos = last (children n))
     \<and> (pos = length (children n) - 1 \<longrightarrow> children n' = butlast (children n))
     \<and> (pos < length (children n) - 1 \<longrightarrow>
          children n' = take pos (children n) @ last (children n)
                          # butlast (drop (Suc pos) (children n)))
     \<and> node_p n' = node_p n \<and> level n' = level n \<and> maxdistUB n' = maxdistUB n
     \<and> ID n' = ID n \<and> UID n' = UID n \<and> ext_prop n' = ext_prop n"
proof -
  let ?cs = "children n"
  let ?r = "butlast (?cs[pos := last ?cs])"
  from assms have ne: "?cs \<noteq> []" by auto
  then obtain ys y where cs: "?cs = ys @ [y]"
    by (metis append_butlast_last_id)
  have r: "?r = (if pos < length ys then ys[pos := y] else ys)"
    using assms by (simp add: cs list_update_append butlast_append)
  have len: "length ?r = length ?cs - 1" by simp
  have ms: "mset ?r + {#?cs ! pos#} = mset ?cs"
  proof (cases "pos < length ys")
    case True
    then have "mset (ys[pos := y]) + {#ys ! pos#} = mset ys + {#y#}"
      by (simp add: mset_update)
    with True show ?thesis by (simp add: cs list_update_append nth_append)
  next
    case False
    with assms have "pos = length ys" by (simp add: cs)
    then show ?thesis by (simp add: cs)
  qed
  have others: "\<forall>i < length ?r. i \<noteq> pos \<longrightarrow> ?r ! i = ?cs ! i"
    by (simp add: nth_butlast)
  have atpos: "pos < length ?r \<longrightarrow> ?r ! pos = last ?cs"
    by (simp add: nth_butlast)
  have lastpos: "pos = length ?cs - 1 \<longrightarrow> ?r = butlast ?cs"
    by (simp add: r cs)
  have moved: "pos < length ?cs - 1 \<longrightarrow>
      ?r = take pos ?cs @ last ?cs # butlast (drop (Suc pos) ?cs)"
  proof
    assume "pos < length ?cs - 1"
    then have p: "pos < length ys" by (simp add: cs)
    then have "ys[pos := y] = take pos ys @ y # drop (Suc pos) ys"
      by (rule upd_conv_take_nth_drop)
    moreover have "butlast (drop (Suc pos) (ys @ [y])) = drop (Suc pos) ys"
      using p by (simp add: butlast_append)
    moreover have "?r = ys[pos := y]"
      using p by (simp add: cs list_update_append)
    ultimately show "?r = take pos ?cs @ last ?cs # butlast (drop (Suc pos) ?cs)"
      using p by (simp add: cs)
  qed
  show ?thesis
    using assms len ms others atpos lastpos moved by (simp add: erase_def)
qed

text \<open>
  At position \<open>0\<close> of three children the last child moves to the front: the children
  left are the third and the second, in that order.
\<close>

theorem erase_swap_remove_witness:
  "(0::nat) < length (children (Node (0::real)
        [Node 1 [] 0 0 0 1 [], Node 2 [] 0 0 0 2 [], Node 3 [] 0 0 0 3 []] 1 0 0 0 []))
   \<and> erase (Node (0::real)
        [Node 1 [] 0 0 0 1 [], Node 2 [] 0 0 0 2 [], Node 3 [] 0 0 0 3 []] 1 0 0 0 []) 0
     = Some (Node 0 [Node 3 [] 0 0 0 3 [], Node 2 [] 0 0 0 2 []] 1 0 0 0 [])"
  using erase_swap_remove [of 0 "Node (0::real)
        [Node 1 [] 0 0 0 1 [], Node 2 [] 0 0 0 2 [], Node 3 [] 0 0 0 3 []] 1 0 0 0 []"]
  by (simp add: erase_def)

section \<open>The cached bound \<open>maxdistUB\<close>\<close>

lemma descendants_children: "descendants n = concat (map (\<lambda>c. c # descendants c) (children n))"
  by (cases n) simp




lemma max_child_bound_cong:
  "max_child_bound (Node p cs l m i u e) = max_child_bound (Node p cs l m' i' u' e')"
  by (simp add: max_child_bound_def dist_node_def)

lemma set_all_nodes:
  "set (all_nodes n) = insert n (\<Union>c \<in> set (children n). set (all_nodes c))"
  by (cases n) (auto simp add: all_nodes_def)

lemma tight_iff: "tight n \<longleftrightarrow> maxdistUB n = max_child_bound n \<and> (\<forall>c \<in> set (children n). tight c)"
proof -
  have "tight n \<longleftrightarrow> (\<forall>m \<in> set (all_nodes n). maxdistUB m = max_child_bound m)"
    by (simp add: tight_def list_all_iff)
  also have "\<dots> \<longleftrightarrow> maxdistUB n = max_child_bound n
      \<and> (\<forall>c \<in> set (children n). \<forall>m \<in> set (all_nodes c). maxdistUB m = max_child_bound m)"
    by (subst set_all_nodes) blast
  finally show ?thesis by (simp add: tight_def list_all_iff)
qed














lemma calc_maxdist_node_forget:
  "calc_maxdist_node Recurrence (forget_bounds r) = calc_maxdist_node Recurrence r"
proof (induction r)
  case (Node p cs l m i u e)
  let ?cs = "map (calc_maxdist_node Recurrence) cs"
  from Node have eq: "map (calc_maxdist_node Recurrence) (map forget_bounds cs) = ?cs"
    by simp
  have "calc_maxdist_node Recurrence (forget_bounds (Node p cs l m i u e))
          = Node p ?cs l (max_child_bound (Node p ?cs l 0 i u e)) i u e"
    by (simp add: Let_def node_bound_def eq del: map_map)
  also have "\<dots> = calc_maxdist_node Recurrence (Node p cs l m i u e)"
    using max_child_bound_cong [of p ?cs l 0 i u e m i u e]
    by (simp add: Let_def node_bound_def)
  finally show ?case .
qed

lemma tight_calc_maxdist_node: "tight r \<Longrightarrow> calc_maxdist_node Recurrence r = r"
proof (induction r)
  case (Node p cs l m i u e)
  from Node.prems have m: "m = max_child_bound (Node p cs l m i u e)"
    and cs: "\<forall>c \<in> set cs. tight c"
    by (simp_all add: tight_iff [of "Node p cs l m i u e"])
  with Node.IH have "map (calc_maxdist_node Recurrence) cs = cs" by (simp add: map_idI)
  with m show ?case by (simp add: Let_def node_bound_def)
qed

text \<open>
  The recurrence and the exact maximum cannot both hold at every node of the example tree,
  whatever the values of \<open>maxdistUB\<close>: the recurrence leaves only the values of
  \<open>example_root_calc\<close>, with \<open>5\<close> at the root, whose furthest descendant is at distance \<open>4\<close>.
\<close>

lemma example_bounds_unique:
  assumes "forget_bounds r = forget_bounds example_root" and "tight r"
  shows "r = example_root_calc"
proof -
  have "r = calc_maxdist_node Recurrence r"
    using assms(2) by (simp add: tight_calc_maxdist_node)
  also have "\<dots> = calc_maxdist_node Recurrence (forget_bounds r)"
    by (simp add: calc_maxdist_node_forget)
  also have "\<dots> = calc_maxdist_node Recurrence example_root"
    by (simp only: assms(1) calc_maxdist_node_forget)
  also have "\<dots> = example_root_calc"
    by (simp add: node_bound_def max_child_bound_def dist_node_def)
  finally show ?thesis .
qed

lemma example_bounds_not_both:
  assumes "forget_bounds r = forget_bounds example_root"
  shows "\<not> (tight r \<and> exact_ok r)"
proof
  assume a: "tight r \<and> exact_ok r"
  with assms have "r = example_root_calc" by (simp add: example_bounds_unique)
  with a have "exact_ok example_root_calc" by simp
  then show False by (simp add: exact_ok_def all_nodes_def max_desc_dist_def dist_node_def)
qed




lemma bound_ok_iff:
  "bound_ok n \<longleftrightarrow> bound_ok_node n \<and> (\<forall>c \<in> set (children n). bound_ok c)"
proof -
  have "bound_ok n \<longleftrightarrow> (\<forall>m \<in> set (all_nodes n). bound_ok_node m)"
    by (simp add: bound_ok_def list_all_iff)
  also have "\<dots> \<longleftrightarrow> bound_ok_node n
      \<and> (\<forall>c \<in> set (children n). \<forall>m \<in> set (all_nodes c). bound_ok_node m)"
    by (subst set_all_nodes) blast
  finally show ?thesis by (simp add: bound_ok_def list_all_iff)
qed

lemma bound_ok_node_iff:
  "bound_ok_node n \<longleftrightarrow> (\<forall>d \<in> set (descendants n). norm (node_p n - node_p d) \<le> maxdistUB n)"
  by (simp add: bound_ok_node_def list_all_iff dist_node_def)

lemma setChild_bound_ok:
  assumes "bound_ok n"
  shows "bound_ok (fst (setChild n pIns uid new_id)) \<longleftrightarrow> dist_point n pIns \<le> maxdistUB n"
proof -
  let ?t = "Node pIns [] (int32 (level n - 1)) 0 (word_of_int new_id) uid []"
  let ?n' = "Node (node_p n) (children n @ [?t]) (level n) (maxdistUB n) (ID n) (UID n) (ext_prop n)"
  have f: "fst (setChild n pIns uid new_id) = ?n'" by (simp add: setChild_def Let_def)
  have d: "descendants ?n' = descendants n @ [?t]"
    by (simp add: descendants_children [of n])
  have t: "bound_ok ?t" by (simp add: bound_ok_def all_nodes_def bound_ok_node_def)
  from assms have n: "bound_ok_node n" and cs: "\<forall>c \<in> set (children n). bound_ok c"
    by (simp_all add: bound_ok_iff [of n])
  have a: "bound_ok_node ?n' \<longleftrightarrow> dist_point n pIns \<le> maxdistUB n"
    using n by (auto simp add: bound_ok_node_iff d dist_point_def simp del: descendants.simps)
  have b: "\<forall>c \<in> set (children ?n'). bound_ok c" using cs t by simp
  have "bound_ok ?n' \<longleftrightarrow> bound_ok_node ?n'"
    using b bound_ok_iff [of ?n'] by blast
  with a f show ?thesis by simp
qed

lemma erase_bound_ok:
  assumes "bound_ok n" and "erase n pos = Some n'"
  shows "bound_ok n'"
proof -
  from assms(2) have pos: "pos < length (children n)"
    and n': "n' = Node (node_p n) (butlast ((children n)[pos := last (children n)]))
              (level n) (maxdistUB n) (ID n) (UID n) (ext_prop n)"
    by (auto simp add: erase_def split: if_splits)
  have sub: "set (children n') \<subseteq> set (children n)"
  proof
    fix c assume "c \<in> set (children n')"
    then have "c \<in> set ((children n)[pos := last (children n)])"
      by (auto simp add: n' dest: in_set_butlastD)
    then have "c \<in> insert (last (children n)) (set (children n))"
      using set_update_subset_insert by fastforce
    moreover have "children n \<noteq> []" using pos by auto
    then have "last (children n) \<in> set (children n)" by (rule last_in_set)
    ultimately show "c \<in> set (children n)" by auto
  qed
  then have dsub: "set (descendants n') \<subseteq> set (descendants n)"
    by (subst descendants_children [of n'], subst descendants_children [of n]) auto
  from assms(1) have n: "bound_ok_node n" and cs: "\<forall>c \<in> set (children n). bound_ok c"
    by (simp_all add: bound_ok_iff [of n])
  have "bound_ok_node n'"
    using n dsub by (auto simp add: bound_ok_node_iff n')
  moreover have "\<forall>c \<in> set (children n'). bound_ok c" using cs sub by blast
  ultimately show ?thesis by (simp only: bound_ok_iff [of n'])
qed

text \<open>
  C4, as the code has it. A node made by \<open>setChild\<close> has \<open>maxdistUB = 0\<close> and no
  descendants, so the bound holds in it. \<open>setChild\<close> does not write the \<open>maxdistUB\<close> of
  the node it extends: on a subtree where the bound holds, it still holds after
  \<open>setChild\<close> exactly when the new point is within \<open>maxdistUB\<close> of that node. \<open>erase\<close>
  and \<open>remove\<close> keep the bound.
\<close>

theorem maxdistUB_bound_operations:
  assumes "bound_ok n"
  shows "maxdistUB (snd (setChild n pIns uid new_id)) = 0
     \<and> descendants (snd (setChild n pIns uid new_id)) = []
     \<and> bound_ok (snd (setChild n pIns uid new_id))
     \<and> maxdistUB (fst (setChild n pIns uid new_id)) = maxdistUB n
     \<and> (bound_ok (fst (setChild n pIns uid new_id)) \<longleftrightarrow> dist_point n pIns \<le> maxdistUB n)
     \<and> (\<forall>pos n'. erase n pos = Some n' \<longrightarrow> bound_ok n')
     \<and> (\<forall>t q. tree_root t = Some n \<longrightarrow> tree_root (snd (remove t q)) = Some n)"
proof -
  have "bound_ok (snd (setChild n pIns uid new_id))"
    by (simp add: setChild_def Let_def bound_ok_def all_nodes_def bound_ok_node_def)
  moreover have "bound_ok (fst (setChild n pIns uid new_id)) \<longleftrightarrow> dist_point n pIns \<le> maxdistUB n"
    using assms by (rule setChild_bound_ok)
  moreover have "\<forall>pos n'. erase n pos = Some n' \<longrightarrow> bound_ok n'"
    using assms erase_bound_ok by blast
  ultimately show ?thesis
    by (simp add: setChild_def Let_def remove_def)
qed

text \<open>
  A node at \<open>0\<close> with \<open>maxdistUB = 2\<close> and a child at \<open>1\<close>: a new child at \<open>2\<close> keeps the
  bound.
\<close>

theorem maxdistUB_bound_operations_witness:
  "bound_ok (Node (0::real) [Node 1 [] (- 1) 0 0 1 []] 0 2 0 0 [])
   \<and> bound_ok (fst (setChild (Node (0::real) [Node 1 [] (- 1) 0 0 1 []] 0 2 0 0 []) 2 2 (- 1)))"
proof -
  have h: "bound_ok (Node (0::real) [Node 1 [] (- 1) 0 0 1 []] 0 2 0 0 [])"
    by (simp add: bound_ok_def all_nodes_def bound_ok_node_def dist_node_def)
  have d: "dist_point (Node (0::real) [Node 1 [] (- 1) 0 0 1 []] 0 2 0 0 []) 2 \<le> maxdistUB (Node (0::real) [Node 1 [] (- 1) 0 0 1 []] 0 2 0 0 [])"
    by (simp add: dist_point_def)
  from maxdistUB_bound_operations [OF h, of 2 2 "- 1"] d h show ?thesis
    by blast
qed

text \<open>
  The claim as written fails at the first child of a fresh root: the root at \<open>0\<close> has
  \<open>maxdistUB = 0\<close>, the bound holds in it, and after \<open>setChild\<close> with the point \<open>1\<close> its
  \<open>maxdistUB\<close> is still \<open>0\<close> with a descendant at distance \<open>1\<close>.
\<close>

theorem maxdistUB_bound_counterexample:
  "bound_ok (Node (0::real) [] 0 0 0 0 [])
   \<and> \<not> bound_ok (fst (setChild (Node (0::real) [] 0 0 0 0 []) 1 1 (- 1)))
   \<and> maxdistUB (fst (setChild (Node (0::real) [] 0 0 0 0 []) 1 1 (- 1))) = 0
   \<and> dist_node (fst (setChild (Node (0::real) [] 0 0 0 0 []) 1 1 (- 1)))
        (snd (setChild (Node (0::real) [] 0 0 0 0 []) 1 1 (- 1))) = 1"
  by (simp add: setChild_def Let_def bound_ok_def all_nodes_def bound_ok_node_def dist_node_def)

section \<open>Insertion and duplicates\<close>

lemma first_candidate_Some:
  "first_candidate cs p r = Some k \<Longrightarrow> k < length cs \<and> dist_point (cs ! k) p \<le> r"
  by (induction cs arbitrary: k) (auto split: if_splits)

lemma node_rebuild: "Node (node_p n) (children n) (level n) (maxdistUB n) (ID n) (UID n) (ext_prop n) = n"
  by (cases n) simp

lemma insert_at_False:
  "insert_at pd st n p uid d = Some (False, n', st') \<Longrightarrow> n' = n \<and> st' = st"
proof (induction pd st n p uid d arbitrary: n' st' rule: insert_at.induct)
  case (1 pd st current p uid curr_dist)
  show ?case
  proof (cases "curr_dist = 0")
    case True
    with "1.prems" show ?thesis by (simp add: insert_at.simps [of pd st current])
  next
    case False
    with "1.prems" obtain r where r: "covdist_level (level current - 1) pd = Some r"
      by (auto simp add: insert_at.simps [of pd st current] split: option.splits)
    from "1.prems" False r obtain k where k: "first_candidate (children current) p r = Some k"
      by (auto simp add: insert_at.simps [of pd st current] split: option.splits)
    from "1.prems" False r k obtain c' where
      c: "insert_at pd st (children current ! k) p uid (dist_point (children current ! k) p)
            = Some (False, c', st')"
      and n': "n' = Node (node_p current) ((children current)[k := c']) (level current)
                 (maxdistUB current) (ID current) (UID current) (ext_prop current)"
      by (auto simp add: insert_at.simps [of pd st current] split: option.splits)
    from "1.IH" [OF False r k c] have "c' = children current ! k" and "st' = st" by simp_all
    then show ?thesis using n' by (simp add: node_rebuild)
  qed
qed

lemma insert_at_True:
  "insert_at pd st n p uid d = Some (True, n', st') \<Longrightarrow> snd st' = snd st + 1"
proof (induction pd st n p uid d arbitrary: n' st' rule: insert_at.induct)
  case (1 pd st current p uid curr_dist)
  from "1.prems" have nz: "curr_dist \<noteq> 0"
    by (auto simp add: insert_at.simps [of pd st current])
  with "1.prems" obtain r where r: "covdist_level (level current - 1) pd = Some r"
    by (auto simp add: insert_at.simps [of pd st current] split: option.splits)
  show ?case
  proof (cases "first_candidate (children current) p r")
    case None
    with "1.prems" nz r show ?thesis
      by (auto simp add: insert_at.simps [of pd st current])
  next
    case (Some k)
    with "1.prems" nz r obtain c' where
      "insert_at pd st (children current ! k) p uid (dist_point (children current ! k) p)
            = Some (True, c', st')"
      by (auto simp add: insert_at.simps [of pd st current] split: option.splits)
    from "1.IH" [OF nz r Some this] show ?thesis .
  qed
qed

lemma insert_at_path:
  "insert_at pd st n p uid d = Some (b, n', st') \<Longrightarrow> d = dist_point n p \<Longrightarrow>
   b = (\<not> list_ex (\<lambda>m. dist_point m p = 0) (descent_path pd n p))"
proof (induction pd st n p uid d arbitrary: b n' st' rule: insert_at.induct)
  case (1 pd st current p uid curr_dist)
  show ?case
  proof (cases "curr_dist = 0")
    case True
    with "1.prems"(1) have "\<not> b"
      by (simp add: insert_at.simps [of pd st current])
    moreover from True "1.prems"(2)
    have "list_ex (\<lambda>m. dist_point m p = 0) (descent_path pd current p)"
      by (simp add: descent_path.simps [of pd current])
    ultimately show ?thesis by simp
  next
    case False
    with "1.prems" obtain r where r: "covdist_level (level current - 1) pd = Some r"
      by (auto simp add: insert_at.simps [of pd st current] split: option.splits)
    show ?thesis
    proof (cases "first_candidate (children current) p r")
      case None
      with "1.prems" False r show ?thesis
        by (auto simp add: insert_at.simps [of pd st current] descent_path.simps [of pd current])
    next
      case (Some k)
      with "1.prems" False r obtain c' where
        c: "insert_at pd st (children current ! k) p uid (dist_point (children current ! k) p)
              = Some (b, c', st')"
        by (auto simp add: insert_at.simps [of pd st current] split: option.splits)
      from "1.IH" [OF False r Some c]
      have "b = (\<not> list_ex (\<lambda>m. dist_point m p = 0) (descent_path pd (children current ! k) p))"
        by simp
      with "1.prems"(2) False r Some show ?thesis
        by (simp add: descent_path.simps [of pd current])
    qed
  qed
qed

lemma promote_Some:
  "promote t d0 = Some t1 \<Longrightarrow>
     powdict t1 = powdict t \<and> min_scale t1 = min_scale t \<and> tree_N t1 = tree_N t
     \<and> (\<exists>rt rt1. tree_root t = Some rt \<and> tree_root t1 = Some rt1 \<and> node_p rt1 = node_p rt)
     \<and> (t1 = t \<or> (\<exists>rt1 old r. tree_root t1 = Some rt1 \<and> children rt1 = [old]
            \<and> level rt1 = level old + 1 \<and> node_p old = node_p rt1
            \<and> covdist old (powdict t) = Some r \<and> r < d0))"
proof (induction t d0 arbitrary: t1 rule: promote.induct)
  case (1 t d0)
  from "1.prems" obtain rt where rt: "tree_root t = Some rt"
    by (auto simp add: promote.simps [of t] split: option.splits)
  from "1.prems" rt obtain r where r: "covdist rt (powdict t) = Some r"
    by (auto simp add: promote.simps [of t] split: option.splits)
  let ?new = "Node (node_p rt) [rt] (level rt + 1) 0 (ID rt) (UID rt) (ext_prop rt)"
  let ?t2 = "t\<lparr>tree_root := Some ?new, max_scale := max (max_scale t) (level rt + 1)\<rparr>"
  show ?case
  proof (cases "r < d0")
    case False
    with "1.prems" rt r have "t1 = t" by (simp add: promote.simps [of t])
    with rt show ?thesis by simp
  next
    case True
    with "1.prems" rt r have p2: "promote ?t2 d0 = Some t1" by (simp add: promote.simps [of t])
    from "1.IH" [OF rt r True p2]
    have a: "powdict t1 = powdict t" "min_scale t1 = min_scale t" "tree_N t1 = tree_N t"
      and b: "\<exists>rt1. tree_root t1 = Some rt1 \<and> node_p rt1 = node_p rt"
      and c: "t1 = ?t2 \<or> (\<exists>rt1 old r. tree_root t1 = Some rt1 \<and> children rt1 = [old]
            \<and> level rt1 = level old + 1 \<and> node_p old = node_p rt1
            \<and> covdist old (powdict t) = Some r \<and> r < d0)"
      by simp_all
    from c have "\<exists>rt1 old r. tree_root t1 = Some rt1 \<and> children rt1 = [old]
            \<and> level rt1 = level old + 1 \<and> node_p old = node_p rt1
            \<and> covdist old (powdict t) = Some r \<and> r < d0"
    proof
      assume "t1 = ?t2"
      then have "tree_root t1 = Some ?new \<and> children ?new = [rt]
            \<and> level ?new = level rt + 1 \<and> node_p rt = node_p ?new
            \<and> covdist rt (powdict t) = Some r \<and> r < d0"
        using r True by simp
      then show ?thesis by blast
    qed
    with a b rt show ?thesis by simp
  qed
qed

lemma levels_in_table_promoted:
  assumes "tree_root t = Some rt" and "levels_in_table t" and "level rt < 1024"
  shows "levels_in_table
           (t\<lparr>tree_root := Some (Node (node_p rt) [rt] (level rt + 1) 0 (ID rt) (UID rt) (ext_prop rt)),
              max_scale := max (max_scale t) (level rt + 1)\<rparr>)"
proof -
  from assms(1,2) have all: "list_all (\<lambda>n. - 1023 \<le> level n \<and> level n \<le> 1024) (all_nodes rt)"
    by (simp add: levels_in_table_def)
  then have "- 1023 \<le> level rt" by (simp add: all_nodes_def)
  with all assms(3) show ?thesis
    by (simp add: levels_in_table_def all_nodes_def)
qed

lemma promote_defined:
  "powdict t = compute_pow_table b \<Longrightarrow> tree_root t \<noteq> None \<Longrightarrow> levels_in_table t \<Longrightarrow>
   d0 \<le> b powi 1024 \<Longrightarrow> \<exists>t1. promote t d0 = Some t1 \<and> levels_in_table t1"
proof (induction t d0 rule: promote.induct)
  case (1 t d0)
  from "1.prems"(2) obtain rt where rt: "tree_root t = Some rt" by auto
  with "1.prems"(3) have lv: "- 1023 \<le> level rt" "level rt \<le> 1024"
    by (simp_all add: levels_in_table_def all_nodes_def)
  then have r: "covdist rt (powdict t) = Some (b powi level rt)"
    using "1.prems"(1) by (simp add: covdist_def powdict_at_pow_table)
  show ?case
  proof (cases "b powi level rt < d0")
    case False
    with rt r "1.prems"(3) show ?thesis by (simp add: promote.simps [of t])
  next
    case True
    let ?t2 = "t\<lparr>tree_root := Some (Node (node_p rt) [rt] (level rt + 1) 0 (ID rt) (UID rt) (ext_prop rt)),
                  max_scale := max (max_scale t) (level rt + 1)\<rparr>"
    from True "1.prems"(4) have "level rt \<noteq> 1024" by auto
    with lv have lt: "level rt < 1024" by simp
    have "\<exists>t1. promote ?t2 d0 = Some t1 \<and> levels_in_table t1"
    proof (rule "1.IH" [OF rt r True])
      show "powdict ?t2 = compute_pow_table b" using "1.prems"(1) by simp
      show "tree_root ?t2 \<noteq> None" by simp
      show "levels_in_table ?t2" using rt "1.prems"(3) lt by (rule levels_in_table_promoted)
      show "d0 \<le> b powi 1024" by (rule "1.prems"(4))
    qed
    with rt r True show ?thesis by (simp add: promote.simps [of t])
  qed
qed

lemma insert_at_defined:
  "pd = compute_pow_table b \<Longrightarrow>
   list_all (\<lambda>n. - 1023 \<le> level n \<and> level n \<le> 1024) (all_nodes n) \<Longrightarrow>
   insert_at pd st n p uid d \<noteq> None"
proof (induction pd st n p uid d rule: insert_at.induct)
  case (1 pd st current p uid curr_dist)
  show ?case
  proof (cases "curr_dist = 0")
    case True
    then show ?thesis by (simp add: insert_at.simps [of pd st current])
  next
    case False
    from "1.prems"(2) have "- 1023 \<le> level current" "level current \<le> 1024"
      by (simp_all add: all_nodes_def)
    then have r: "covdist_level (level current - 1) pd = Some (b powi (level current - 1))"
      using "1.prems"(1) by (simp add: covdist_level_def powdict_at_pow_table)
    show ?thesis
    proof (cases "first_candidate (children current) p (b powi (level current - 1))")
      case None
      with False r show ?thesis by (simp add: insert_at.simps [of pd st current])
    next
      case (Some k)
      then have "children current ! k \<in> set (children current)"
        by (simp add: first_candidate_Some)
      then have "set (all_nodes (children current ! k)) \<subseteq> set (all_nodes current)"
        by (subst (2) set_all_nodes) auto
      with "1.prems"(2)
      have "list_all (\<lambda>n. - 1023 \<le> level n \<and> level n \<le> 1024) (all_nodes (children current ! k))"
        by (auto simp add: list_all_iff)
      from "1.IH" [OF False r Some "1.prems"(1) this] Some False r show ?thesis
        by (auto simp add: insert_at.simps [of pd st current])
    qed
  qed
qed

lemma insert_at_promoted:
  assumes "children rt1 = [old]" and "level rt1 = level old + 1" and "node_p old = node_p rt1"
    and "covdist old pd = Some r" and "r < d" and "0 \<le> r" and "d = dist_point rt1 p"
  shows "\<exists>n' st'. insert_at pd st rt1 p uid d = Some (True, n', st')"
proof -
  from assms have nz: "d \<noteq> 0" by simp
  have r: "covdist_level (level rt1 - 1) pd = Some r"
    using assms(2,4) by (simp add: covdist_level_def covdist_def)
  have "dist_point old p = d" using assms(3,7) by (simp add: dist_point_def)
  then have "first_candidate (children rt1) p r = None" using assms(1,5) by simp
  with nz r show ?thesis by (simp add: insert_at.simps [of pd st rt1])
qed

lemma pow_table_nonneg:
  "covdist n (compute_pow_table b) = Some r \<Longrightarrow> 0 \<le> b \<Longrightarrow> 0 \<le> r"
  by (auto simp add: covdist_def powdict_at_pow_table split: if_splits)

lemma insert_tree_defined:
  assumes "powdict t = compute_pow_table (base t)" and "levels_in_table t"
    and "case tree_root t of None \<Rightarrow> True | Some rt \<Rightarrow> dist_point rt p \<le> base t powi 1024"
  shows "insert_tree t p uid \<noteq> None"
proof (cases "tree_root t")
  case None
  then show ?thesis by (simp add: insert_tree_def)
next
  case (Some rt)
  let ?d0 = "dist_point rt p"
  from Some assms(3) have d0: "?d0 \<le> base t powi 1024" by simp
  from Some have "tree_root t \<noteq> None" by simp
  with assms(1,2) d0 obtain t1 where t1: "promote t ?d0 = Some t1" and lv: "levels_in_table t1"
    using promote_defined [of t "base t" ?d0] by blast
  from promote_Some [OF t1] obtain rt1 where
    same: "powdict t1 = powdict t" and rt1: "tree_root t1 = Some rt1"
    by auto
  from lv rt1 have "list_all (\<lambda>n. - 1023 \<le> level n \<and> level n \<le> 1024) (all_nodes rt1)"
    by (simp add: levels_in_table_def)
  with same assms(1)
  have "insert_at (powdict t1) (min_scale t1, tree_N t1) rt1 p uid ?d0 \<noteq> None"
    using insert_at_defined [of "powdict t1" "base t" rt1] by simp
  with Some t1 rt1 show ?thesis
    by (auto simp add: insert_tree_def Let_def)
qed

lemma insert_tree_result:
  assumes "powdict t = compute_pow_table (base t)" and "0 \<le> base t"
    and "insert_tree t p uid = Some (b, t')"
  shows "(b \<longleftrightarrow> \<not> zero_encountered t p) \<and> (\<not> b \<longrightarrow> t' = t)
     \<and> (b \<longrightarrow> tree_N t' = (if tree_root t = None then 1 else tree_N t + 1))"
proof (cases "tree_root t")
  case None
  with assms(3) show ?thesis
    by (auto simp add: insert_tree_def zero_encountered_def insert_descent_def)
next
  case (Some rt)
  let ?d0 = "dist_point rt p"
  from assms(3) Some obtain t1 where t1: "promote t ?d0 = Some t1"
    by (auto simp add: insert_tree_def Let_def split: option.splits)
  from promote_Some [OF t1] Some obtain rt1 where
    same: "powdict t1 = powdict t" "min_scale t1 = min_scale t" "tree_N t1 = tree_N t"
    and rt1: "tree_root t1 = Some rt1" and pt: "node_p rt1 = node_p rt"
    and shape: "t1 = t \<or> (\<exists>rt1 old r. tree_root t1 = Some rt1 \<and> children rt1 = [old]
            \<and> level rt1 = level old + 1 \<and> node_p old = node_p rt1
            \<and> covdist old (powdict t) = Some r \<and> r < ?d0)"
    by auto
  from pt have dd: "?d0 = dist_point rt1 p" by (simp add: dist_point_def)
  from assms(3) Some t1 rt1 obtain rt2 ms n where
    ia: "insert_at (powdict t1) (min_scale t1, tree_N t1) rt1 p uid ?d0 = Some (b, rt2, ms, n)"
    and t': "t' = t1\<lparr>tree_root := Some rt2, min_scale := ms, tree_N := n\<rparr>"
    by (auto simp add: insert_tree_def Let_def split: option.splits)
  have path: "b \<longleftrightarrow> \<not> zero_encountered t p"
    using insert_at_path [OF ia dd] Some t1 rt1
    by (simp add: zero_encountered_def insert_descent_def)
  have unchanged: "t' = t" if nb: "\<not> b"
  proof -
    from ia nb have "rt2 = rt1 \<and> (ms, n) = (min_scale t1, tree_N t1)"
      using insert_at_False [of "powdict t1" "(min_scale t1, tree_N t1)" rt1 p uid ?d0 rt2 "(ms, n)"]
      by simp
    with rt1 t' have eq: "t' = t1" by simp
    have "t1 = t"
    proof (rule ccontr)
      assume "t1 \<noteq> t"
      with shape rt1 obtain old r where o: "children rt1 = [old]" "level rt1 = level old + 1"
        "node_p old = node_p rt1" "covdist old (powdict t) = Some r" "r < ?d0"
        by auto
      from o(4) assms(1,2) have "0 \<le> r" using pow_table_nonneg [of old "base t" r] by simp
      with o same(1) dd
      have "\<exists>n' st'. insert_at (powdict t1) (min_scale t1, tree_N t1) rt1 p uid ?d0
               = Some (True, n', st')"
        using insert_at_promoted [of rt1 old "powdict t1" r ?d0 p] by simp
      with ia nb show False by simp
    qed
    with eq show ?thesis by simp
  qed
  have count: "tree_N t' = tree_N t + 1" if "b"
    using that ia same(3) t'
      insert_at_True [of "powdict t1" "(min_scale t1, tree_N t1)" rt1 p uid ?d0 rt2 "(ms, n)"]
    by simp
  from path unchanged count Some show ?thesis by auto
qed

text \<open>
  C5. Take a tree whose power table is the table of its base, with a base that is not
  negative. If every level of the tree and the distance from the root to \<open>p\<close> are within
  the table, \<open>insert\<close> returns. Whenever it returns, it returns false exactly when a node
  at distance zero from \<open>p\<close> is met on the descent, and then the tree after the call is the
  tree before it (no node added, \<open>N\<close> unchanged); otherwise it returns true, and \<open>N\<close> has
  grown by one (to \<open>1\<close> on an empty tree).
\<close>

theorem insert_tree_duplicate:
  assumes "powdict t = compute_pow_table (base t)" and "0 \<le> base t"
  shows "(levels_in_table t
          \<and> (case tree_root t of None \<Rightarrow> True | Some rt \<Rightarrow> dist_point rt p \<le> base t powi 1024)
          \<longrightarrow> insert_tree t p uid \<noteq> None)
     \<and> (\<forall>b t'. insert_tree t p uid = Some (b, t') \<longrightarrow>
            (b \<longleftrightarrow> \<not> zero_encountered t p)
          \<and> (\<not> b \<longrightarrow> t' = t)
          \<and> (b \<longrightarrow> tree_N t' = (if tree_root t = None then 1 else tree_N t + 1)))"
  using insert_tree_defined [OF assms(1), of p uid] insert_tree_result [OF assms, of p uid]
  by blast

text \<open>
  On the tree built from the points \<open>0\<close>, \<open>4\<close>, \<open>3\<close> with base \<open>2\<close>, inserting \<open>4\<close> again
  descends from the root to the node \<open>4\<close>, at distance zero: the result is false and the
  tree is as before.
\<close>

theorem insert_tree_duplicate_witness:
  "powdict example_tree = compute_pow_table (base example_tree) \<and> 0 \<le> base example_tree
   \<and> levels_in_table example_tree
   \<and> zero_encountered example_tree 4
   \<and> insert_tree example_tree 4 7 = Some (False, example_tree)"
proof -
  have h1: "powdict example_tree = compute_pow_table (base example_tree)" by simp
  have h2: "0 \<le> base example_tree" by simp
  have h3: "levels_in_table example_tree" by (simp add: levels_in_table_def all_nodes_def)
  have h4: "case tree_root example_tree of None \<Rightarrow> True | Some rt \<Rightarrow> dist_point rt 4 \<le> base example_tree powi 1024"
    by (simp add: dist_point_def)
  have z: "zero_encountered example_tree 4"
    by (simp add: zero_encountered_def insert_descent_def promote.simps covdist_def
        powdict_at_pow_table descent_path.simps covdist_level_def dist_point_def)
  from insert_tree_duplicate [OF h1 h2, of 4 7] z h1 h2 h3 h4 show ?thesis by auto
qed

section \<open>The example tree is built by insertion\<close>

text \<open>
  Inserting \<open>0\<close>, \<open>4\<close>, \<open>3\<close> with the UIDs \<open>0\<close>, \<open>1\<close>, \<open>2\<close> into the empty example tree
  gives the example tree, and the last insertion returns true.
\<close>

lemma example_tree_by_insertion:
  "Option.bind (insert_tree example_empty 0 0) (\<lambda>(b, t). Option.bind (insert_tree t 4 1) (\<lambda>(b, t). insert_tree t 3 2))
     = Some (True, example_tree)"
  by (simp add: insert_tree_def insert_at.simps promote.simps covdist_def covdist_level_def
      powdict_at_pow_table dist_point_def setChild_uid_def setChild_def Let_def int32_def)

section \<open>Monotonicity of k nearest neighbours\<close>

lemma length_insert_sorted: "length (insert_sorted x S) = Suc (length S)"
  by (induction S) auto

lemma set_insert_sorted: "set (insert_sorted x S) = insert x (set S)"
  by (induction S) auto

lemma sorted_insert_sorted:
  "sorted (map snd S) \<Longrightarrow> sorted (map snd (insert_sorted x S))"
  by (induction S) (auto simp add: set_insert_sorted)

lemma take_insert_sorted_keep:
  "sorted (map snd S) \<Longrightarrow> k \<le> length S \<Longrightarrow> k = 0 \<or> snd (S ! (k - 1)) \<le> snd x \<Longrightarrow>
   take k (insert_sorted x S) = take k S"
proof (induction S arbitrary: k)
  case Nil
  then show ?case by simp
next
  case (Cons y ys)
  show ?case
  proof (cases k)
    case 0
    then show ?thesis by simp
  next
    case (Suc j)
    with Cons.prems have le: "snd ((y # ys) ! j) \<le> snd x" and j: "j \<le> length ys" by simp_all
    have "snd y \<le> snd ((y # ys) ! j)"
      using Cons.prems(1) j by (cases j) auto
    with le have nlt: "\<not> snd x < snd y" by simp
    have "j = 0 \<or> snd (ys ! (j - 1)) \<le> snd x"
      using le by (cases j) auto
    with Cons.IH [of j] Cons.prems(1) j have "take j (insert_sorted x ys) = take j ys" by simp
    with nlt Suc show ?thesis by simp
  qed
qed

lemma take_insert_sorted_replace:
  "sorted (map snd S) \<Longrightarrow> 0 < k \<Longrightarrow> k \<le> length S \<Longrightarrow> snd x < snd (S ! (k - 1)) \<Longrightarrow>
   take k (insert_sorted x S) = insert_sorted x (take (k - 1) S)"
proof (induction S arbitrary: k)
  case Nil
  then show ?case by simp
next
  case (Cons y ys)
  from Cons.prems(2) obtain j where k: "k = Suc j" by (cases k) auto
  show ?case
  proof (cases "snd x < snd y")
    case True
    then show ?thesis using k by (cases j) auto
  next
    case False
    with Cons.prems k have "0 < j" by (cases j) auto
    moreover from Cons.prems k \<open>0 < j\<close> have "snd x < snd (ys ! (j - 1))" by (cases j) auto
    ultimately have "take j (insert_sorted x ys) = insert_sorted x (take (j - 1) ys)"
      using Cons.IH [of j] Cons.prems(1,3) k by simp
    with False k \<open>0 < j\<close> show ?thesis by (cases j) auto
  qed
qed

lemma update_result_take:
  assumes "sorted (map snd S)"
  shows "update_result k (take k S) x = take k (insert_sorted x S)"
proof (cases "length S < k")
  case True
  then show ?thesis by (simp add: update_result_def length_insert_sorted)
next
  case False
  then have k: "k \<le> length S" by simp
  show ?thesis
  proof (cases "k = 0")
    case True
    then show ?thesis by (simp add: update_result_def)
  next
    case nz: False
    with k have ne: "take k S \<noteq> []" by auto
    have "last (take k S) = take k S ! (length (take k S) - 1)"
      using ne by (rule last_conv_nth)
    also have "length (take k S) = k" using k by simp
    also have "take k S ! (k - 1) = S ! (k - 1)" using nz by simp
    finally have last: "last (take k S) = S ! (k - 1)" .
    have bl: "butlast (take k S) = take (k - 1) S"
      using k by (simp add: butlast_take)
    show ?thesis
    proof (cases "snd x < snd (S ! (k - 1))")
      case True
      with assms k nz ne show ?thesis
        by (auto simp add: update_result_def last bl take_insert_sorted_replace)
    next
      case False
      with assms k nz show ?thesis
        by (simp add: update_result_def last take_insert_sorted_keep)
    qed
  qed
qed

lemma pop_min_None: "pop_min xs = None \<longleftrightarrow> xs = []"
  by (cases xs) (auto split: option.splits)

lemma pop_min_Some:
  "pop_min xs = Some (y, ys) \<Longrightarrow>
     y \<in> set xs \<and> set ys \<subseteq> set xs \<and> (\<forall>z \<in> set xs. snd y \<le> snd z)"
proof (induction xs arbitrary: y ys)
  case Nil
  then show ?case by simp
next
  case (Cons x xs)
  show ?case
  proof (cases "pop_min xs")
    case None
    with Cons.prems show ?thesis by (auto simp add: pop_min_None)
  next
    case (Some a)
    obtain z zs where a: "a = (z, zs)" by (cases a)
    from Cons.IH [of z zs] Some a
    have ih: "z \<in> set xs" "set zs \<subseteq> set xs" "\<forall>w \<in> set xs. snd z \<le> snd w" by simp_all
    show ?thesis
    proof (cases "snd x \<le> snd z")
      case True
      with Cons.prems Some a have "y = x" "ys = xs" by simp_all
      with True ih show ?thesis by auto
    next
      case False
      with Cons.prems Some a have "y = z" "ys = x # zs" by simp_all
      with False ih show ?thesis by auto
    qed
  qed
qed

lemma admissible_take:
  "admissible k (take k S) lb \<longleftrightarrow> length S < k \<or> (0 < k \<and> lb \<le> snd (S ! (k - 1)))"
proof (cases "length S < k")
  case True
  then show ?thesis by (simp add: admissible_def)
next
  case False
  then have k: "k \<le> length S" by simp
  show ?thesis
  proof (cases "k = 0")
    case True
    then show ?thesis by (simp add: admissible_def)
  next
    case nz: False
    with k have ne: "take k S \<noteq> []" by auto
    have "last (take k S) = take k S ! (length (take k S) - 1)"
      using ne by (rule last_conv_nth)
    also have "length (take k S) = k" using k by simp
    also have "take k S ! (k - 1) = S ! (k - 1)" using nz by simp
    finally have "last (take k S) = S ! (k - 1)" .
    with k nz ne show ?thesis by (simp add: admissible_def)
  qed
qed

lemma admissible_mono:
  assumes "sorted (map snd S)" and "k1 \<le> k2" and "admissible k1 (take k1 S) lb"
  shows "admissible k2 (take k2 S) lb"
proof (cases "length S < k2")
  case True
  then show ?thesis by (subst admissible_take) simp
next
  case False
  with assms(2,3) have k1: "0 < k1" "lb \<le> snd (S ! (k1 - 1))"
    using admissible_take [of k1 S lb] by auto
  from False assms(2) k1 have "k1 - 1 \<le> k2 - 1" "k2 - 1 < length S" by simp_all
  then have "map snd S ! (k1 - 1) \<le> map snd S ! (k2 - 1)"
    using assms(1) by (simp add: sorted_iff_nth_mono del: nth_map)
  with \<open>k1 - 1 \<le> k2 - 1\<close> \<open>k2 - 1 < length S\<close> have "snd (S ! (k1 - 1)) \<le> snd (S ! (k2 - 1))"
    by simp
  with k1 assms(2) show ?thesis by (subst admissible_take) simp
qed

lemma all_nodes_child:
  "c \<in> set (children n) \<Longrightarrow> set (all_nodes c) \<subseteq> set (all_nodes n)"
  by (subst (2) set_all_nodes) auto

lemma knn_loop_far:
  "R = take k2 S \<Longrightarrow> sorted (map snd S) \<Longrightarrow> 0 < k1 \<Longrightarrow> k1 \<le> length S \<Longrightarrow> k1 \<le> k2 \<Longrightarrow>
   (\<forall>e \<in> set F. \<forall>d \<in> set (all_nodes (fst e)). snd (S ! (k1 - 1)) < dist_point d p) \<Longrightarrow>
   take k1 (knn_loop p k2 F R) = take k1 S"
proof (induction p k2 F R arbitrary: S rule: knn_loop.induct)
  case (1 p k frontier res)
  show ?case
  proof (cases "pop_min frontier")
    case None
    with "1.prems" show ?thesis by (simp add: knn_loop.simps [of p k frontier] min_absorb1)
  next
    case (Some a)
    obtain n lb rest where a: "a = ((n, lb), rest)" by (cases a) auto
    show ?thesis
    proof (cases "admissible k res lb")
      case False
      with Some a "1.prems" show ?thesis
        by (simp add: knn_loop.simps [of p k frontier] min_absorb1)
    next
      case True
      let ?x = "(n, dist_point n p)"
      let ?F = "rest @ map (\<lambda>c. (c, lower_bound c p)) (children n)"
      let ?S = "insert_sorted ?x S"
      from Some a have mem: "(n, lb) \<in> set frontier" and rest: "set rest \<subseteq> set frontier"
        using pop_min_Some [of frontier "(n, lb)" rest] by simp_all
      from mem "1.prems"(6) have far_n: "\<forall>d \<in> set (all_nodes n). snd (S ! (k1 - 1)) < dist_point d p"
        by fastforce
      then have "snd (S ! (k1 - 1)) < dist_point n p" by (simp add: all_nodes_def)
      then have keep: "take k1 ?S = take k1 S"
        using "1.prems"(2,3,4) take_insert_sorted_keep [of S k1 ?x] by simp
      have nth: "?S ! (k1 - 1) = S ! (k1 - 1)"
      proof -
        have "take k1 ?S ! (k1 - 1) = take k1 S ! (k1 - 1)" by (simp only: keep)
        with "1.prems"(3) show ?thesis by simp
      qed
      have res': "update_result k res ?x = take k ?S"
        using "1.prems"(1,2) by (simp add: update_result_take)
      have far': "\<forall>e \<in> set ?F. \<forall>d \<in> set (all_nodes (fst e)). snd (?S ! (k1 - 1)) < dist_point d p"
      proof
        fix e assume e: "e \<in> set ?F"
        show "\<forall>d \<in> set (all_nodes (fst e)). snd (?S ! (k1 - 1)) < dist_point d p"
        proof (cases "e \<in> set rest")
          case True
          with rest "1.prems"(6) nth show ?thesis by auto
        next
          case False
          with e obtain c where c: "c \<in> set (children n)" and "fst e = c" by auto
          with far_n all_nodes_child [OF c] nth show ?thesis by auto
        qed
      qed
      have "take k1 (knn_loop p k ?F (update_result k res ?x)) = take k1 ?S"
      proof (rule "1.IH" [OF Some _ _ _ res'])
        show "((n, lb), rest) = a" by (simp add: a)
        show "(n, lb) = (n, lb)" by simp
        show "\<not> \<not> admissible k res lb" using True by simp
        show "sorted (map snd ?S)" using "1.prems"(2) by (rule sorted_insert_sorted)
        show "0 < k1" by (rule "1.prems"(3))
        show "k1 \<le> length ?S" using "1.prems"(4) by (simp add: length_insert_sorted)
        show "k1 \<le> k" by (rule "1.prems"(5))
        show "\<forall>e \<in> set ?F. \<forall>d \<in> set (all_nodes (fst e)). snd (?S ! (k1 - 1)) < dist_point d p"
          by (rule far')
      qed
      with keep Some a True show ?thesis
        by (simp add: knn_loop.simps [of p k frontier])
    qed
  qed
qed

lemma bounds_valid_lower_bound:
  assumes "bounds_valid r" and "m \<in> set (all_nodes r)" and "d \<in> set (all_nodes m)"
  shows "lower_bound m p \<le> dist_point d p"
proof -
  from assms(1,2) have ub: "0 \<le> maxdistUB m" and bn: "bound_ok_node m"
    by (simp_all add: bounds_valid_def bound_ok_def list_all_iff)
  have nonneg: "0 \<le> dist_point d p" by (simp add: dist_point_def)
  have "dist_point m p - maxdistUB m \<le> dist_point d p"
  proof (cases "d = m")
    case True
    with ub show ?thesis by simp
  next
    case False
    with assms(3) have "d \<in> set (descendants m)" by (simp add: all_nodes_def)
    with bn have "dist_node m d \<le> maxdistUB m"
      by (simp add: bound_ok_node_def list_all_iff)
    moreover have "dist_point m p \<le> dist_node m d + dist_point d p"
    proof -
      have "node_p m - p = (node_p m - node_p d) + (node_p d - p)" by simp
      then show ?thesis unfolding dist_point_def dist_node_def by (metis norm_triangle_ineq)
    qed
    ultimately show ?thesis by linarith
  qed
  with nonneg show ?thesis by (simp add: lower_bound_def)
qed

lemma frontier_ok_step:
  assumes "frontier_ok p F" and "pop_min F = Some ((n, lb), rest)"
  shows "frontier_ok p (rest @ map (\<lambda>c. (c, lower_bound c p)) (children n))"
proof -
  from assms(2) have mem: "(n, lb) \<in> set F" and rest: "set rest \<subseteq> set F"
    using pop_min_Some [of F "(n, lb)" rest] by simp_all
  from assms(1) mem have n: "\<forall>m \<in> set (all_nodes n). \<forall>d \<in> set (all_nodes m).
      lower_bound m p \<le> dist_point d p"
    by (fastforce simp add: frontier_ok_def)
  have "\<forall>c \<in> set (children n). \<forall>m \<in> set (all_nodes c). \<forall>d \<in> set (all_nodes m).
      lower_bound m p \<le> dist_point d p"
    using n all_nodes_child by blast
  with assms(1) rest show ?thesis
    by (auto simp add: frontier_ok_def)
qed

lemma knn_loop_prefix:
  "R = take k2 S \<Longrightarrow> sorted (map snd S) \<Longrightarrow> k1 \<le> k2 \<Longrightarrow> frontier_ok p F \<Longrightarrow>
   knn_loop p k1 F (take k1 S) = take k1 (knn_loop p k2 F R)"
proof (induction p k2 F R arbitrary: S rule: knn_loop.induct)
  case (1 p k frontier res)
  show ?case
  proof (cases "pop_min frontier")
    case None
    with "1.prems" show ?thesis
      by (simp add: knn_loop.simps [of p _ frontier] min_absorb1)
  next
    case (Some a)
    obtain n lb rest where a: "a = ((n, lb), rest)" by (cases a) auto
    let ?x = "(n, dist_point n p)"
    let ?F = "rest @ map (\<lambda>c. (c, lower_bound c p)) (children n)"
    let ?S = "insert_sorted ?x S"
    show ?thesis
    proof (cases "admissible k res lb")
      case False
      with "1.prems"(1,2,3) have "\<not> admissible k1 (take k1 S) lb"
        using admissible_mono [of S k1 k lb] by auto
      with False Some a "1.prems" show ?thesis
        by (simp add: knn_loop.simps [of p _ frontier] min_absorb1)
    next
      case True
      have res': "update_result k res ?x = take k ?S"
        using "1.prems"(1,2) by (simp add: update_result_take)
      show ?thesis
      proof (cases "admissible k1 (take k1 S) lb")
        case adm1: True
        have "knn_loop p k1 ?F (take k1 ?S) = take k1 (knn_loop p k ?F (update_result k res ?x))"
        proof (rule "1.IH" [OF Some _ _ _ res'])
          show "((n, lb), rest) = a" by (simp add: a)
          show "(n, lb) = (n, lb)" by simp
          show "\<not> \<not> admissible k res lb" using True by simp
          show "sorted (map snd ?S)" using "1.prems"(2) by (rule sorted_insert_sorted)
          show "k1 \<le> k" by (rule "1.prems"(3))
          show "frontier_ok p ?F" using "1.prems"(4) Some a by (simp add: frontier_ok_step)
        qed
        moreover have "update_result k1 (take k1 S) ?x = take k1 ?S"
          using "1.prems"(2) by (rule update_result_take)
        ultimately show ?thesis using Some a True adm1
          by (simp add: knn_loop.simps [of p _ frontier])
      next
        case nadm1: False
        then have stop: "knn_loop p k1 frontier (take k1 S) = take k1 S"
          using Some a by (simp add: knn_loop.simps [of p k1 frontier])
        show ?thesis
        proof (cases "k1 = 0")
          case True
          with stop show ?thesis by simp
        next
          case False
          with nadm1 have k1: "0 < k1" "k1 \<le> length S" and thr: "snd (S ! (k1 - 1)) < lb"
            using admissible_take [of k1 S lb] by auto
          from Some a have min: "\<forall>e \<in> set frontier. lb \<le> snd e"
            using pop_min_Some [of frontier "(n, lb)" rest] by simp
          have far: "\<forall>e \<in> set frontier. \<forall>d \<in> set (all_nodes (fst e)).
                       snd (S ! (k1 - 1)) < dist_point d p"
          proof (intro ballI)
            fix e d assume e: "e \<in> set frontier" and d: "d \<in> set (all_nodes (fst e))"
            from e "1.prems"(4) have "snd e = lower_bound (fst e) p"
              and "\<forall>m \<in> set (all_nodes (fst e)). \<forall>d \<in> set (all_nodes m).
                     lower_bound m p \<le> dist_point d p"
              by (simp_all add: frontier_ok_def)
            moreover have "fst e \<in> set (all_nodes (fst e))" by (simp add: all_nodes_def)
            ultimately have "snd e \<le> dist_point d p" using d by fastforce
            with min e thr show "snd (S ! (k1 - 1)) < dist_point d p" by fastforce
          qed
          have "take k1 (knn_loop p k frontier res) = take k1 S"
            using "1.prems"(1,2) k1 "1.prems"(3) far by (rule knn_loop_far)
          with stop show ?thesis by simp
        qed
      qed
    qed
  qed
qed

lemma knn_loop_sorted:
  "R = take k S \<Longrightarrow> sorted (map snd S) \<Longrightarrow>
   \<exists>S'. sorted (map snd S') \<and> knn_loop p k F R = take k S'"
proof (induction p k F R arbitrary: S rule: knn_loop.induct)
  case (1 p k frontier res)
  show ?case
  proof (cases "pop_min frontier")
    case None
    with "1.prems" show ?thesis by (auto simp add: knn_loop.simps [of p k frontier])
  next
    case (Some a)
    obtain n lb rest where a: "a = ((n, lb), rest)" by (cases a) auto
    let ?x = "(n, dist_point n p)"
    let ?F = "rest @ map (\<lambda>c. (c, lower_bound c p)) (children n)"
    let ?S = "insert_sorted ?x S"
    show ?thesis
    proof (cases "admissible k res lb")
      case False
      with Some a "1.prems" show ?thesis by (auto simp add: knn_loop.simps [of p k frontier])
    next
      case True
      have res': "update_result k res ?x = take k ?S"
        using "1.prems"(1,2) by (simp add: update_result_take)
      have "\<exists>S'. sorted (map snd S') \<and> knn_loop p k ?F (update_result k res ?x) = take k S'"
      proof (rule "1.IH" [OF Some _ _ _ res'])
        show "((n, lb), rest) = a" by (simp add: a)
        show "(n, lb) = (n, lb)" by simp
        show "\<not> \<not> admissible k res lb" using True by simp
        show "sorted (map snd ?S)" using "1.prems"(2) by (rule sorted_insert_sorted)
      qed
      with Some a True show ?thesis by (simp add: knn_loop.simps [of p k frontier])
    qed
  qed
qed

text \<open>
  C9, on a tree whose cached bounds are valid. If at every node \<open>maxdistUB\<close> is not
  negative and is at least the distance to every descendant, then for \<open>k1 < k2\<close> the result
  for \<open>k1\<close> is the first \<open>k1\<close> entries of the result for \<open>k2\<close>; every result is sorted
  ascending by distance and has at most \<open>k\<close> entries.
\<close>

theorem kNearestNeighbours_prefix:
  assumes "tree_bounds_valid t" and "k1 < k2"
  shows "kNearestNeighbours t p k1 = take k1 (kNearestNeighbours t p k2)
     \<and> sorted (map snd (kNearestNeighbours t p k1))
     \<and> sorted (map snd (kNearestNeighbours t p k2))
     \<and> length (kNearestNeighbours t p k1) \<le> k1
     \<and> length (kNearestNeighbours t p k2) \<le> k2"
proof (cases "tree_root t")
  case None
  then show ?thesis by (simp add: kNearestNeighbours_def)
next
  case (Some rt)
  let ?F = "[(rt, lower_bound rt p)]"
  from assms(1) Some have bv: "bounds_valid rt" by (simp add: tree_bounds_valid_def)
  have fo: "frontier_ok p ?F"
    using bounds_valid_lower_bound [OF bv] by (simp add: frontier_ok_def)
  have s: "sorted (map snd ([] :: ('a Node \<times> scalar) list))" by simp
  have "knn_loop p k1 ?F (take k1 []) = take k1 (knn_loop p k2 ?F [])"
    using _ s _ fo by (rule knn_loop_prefix) (use assms(2) in simp_all)
  then have pre: "kNearestNeighbours t p k1 = take k1 (kNearestNeighbours t p k2)"
    using Some by (simp add: kNearestNeighbours_def)
  have srt: "sorted (map snd (kNearestNeighbours t p k)) \<and> length (kNearestNeighbours t p k) \<le> k"
    for k
  proof -
    obtain S' where "sorted (map snd S')" and "knn_loop p k ?F [] = take k S'"
      using knn_loop_sorted [of "[]" k "[]" p ?F] by auto
    then show ?thesis
      using Some by (simp add: kNearestNeighbours_def take_map [symmetric] sorted_wrt_take)
  qed
  from pre srt [of k1] srt [of k2] show ?thesis by simp
qed

text \<open>
  The example tree after \<open>calc_maxdist\<close>, queried at \<open>8/5\<close> with \<open>k1 = 1\<close> and \<open>k2 = 4\<close>.
\<close>

theorem kNearestNeighbours_prefix_witness:
  "tree_bounds_valid example_tree_calc \<and> (1::nat) < 4
   \<and> kNearestNeighbours example_tree_calc (8 / 5) 1 = take 1 (kNearestNeighbours example_tree_calc (8 / 5) 4)"
proof -
  have h: "tree_bounds_valid example_tree_calc"
    by (simp add: tree_bounds_valid_def bounds_valid_def bound_ok_def bound_ok_node_def
        all_nodes_def dist_node_def)
  from kNearestNeighbours_prefix [OF h, of 1 4 "8 / 5"] h show ?thesis by simp
qed

text \<open>
  The claim for every tree fails on the example tree as insertion leaves it, with every
  \<open>maxdistUB\<close> at \<open>0\<close>. Queried at \<open>8/5\<close>, the node \<open>4\<close> has the lower bound \<open>12/5\<close> and
  hides its child \<open>3\<close>, at distance \<open>7/5\<close>: with \<open>k = 1\<close> the search stops at the root, at
  distance \<open>8/5\<close>; with \<open>k = 4\<close> it expands \<open>4\<close>, finds \<open>3\<close> and lists it first.
\<close>

theorem kNearestNeighbours_prefix_counterexample:
  "kNearestNeighbours example_tree (8 / 5) 1 = [(example_root, 8 / 5)]
   \<and> take 1 (kNearestNeighbours example_tree (8 / 5) 4) = [(Node 3 [] 0 0 4294967295 2 [], 7 / 5)]
   \<and> kNearestNeighbours example_tree (8 / 5) 1 \<noteq> take 1 (kNearestNeighbours example_tree (8 / 5) 4)"
  by (simp add: kNearestNeighbours_def knn_loop.simps lower_bound_def dist_point_def
      update_result_def admissible_def)

end
